theory Spec2Isabelle
  imports Main "HOL-Library.Word" "HOL-Library.Multiset"
begin

section \<open>The play queue of the music player daemon (src/Queue.cxx)\<close>

text \<open>
  A shallow embedding of \<^verbatim>\<open>struct queue\<close> and of the functions of src/Queue.cxx.

  \<^item> The arrays \<^verbatim>\<open>items\<close>, \<^verbatim>\<open>order\<close> and \<^verbatim>\<open>id_to_position\<close> are lists of the
    allocated size; a store \<^verbatim>\<open>a[i] = v\<close> is \<open>a[i := v]\<close> and a load \<^verbatim>\<open>a[i]\<close> is
    \<open>a ! i\<close>. An access outside the allocation is undefined behaviour in C++; the
    theorems carry the preconditions that keep every access inside.
  \<^item> \<^verbatim>\<open>unsigned\<close> positions, orders and identifiers are natural numbers. Where the
    source relies on the 32-bit wrap-around (\<^verbatim>\<open>start - 1\<close>, \<^verbatim>\<open>i--\<close> and
    \<^verbatim>\<open>to - start\<close> in MoveRange, \<^verbatim>\<open>cur++\<close> in the identifier generator, the
    conversions between \<^verbatim>\<open>int\<close> and \<^verbatim>\<open>unsigned\<close>) it is written out.
  \<^item> The \<^verbatim>\<open>uint32_t\<close> version counter and stamps are 32-bit words, the
    \<^verbatim>\<open>uint8_t\<close> priority is an 8-bit word.
  \<^item> A failed \<^verbatim>\<open>assert\<close> aborts the process: the functions that assert return
    \<open>Inl AssertionFailed\<close> there. A loop that never ends is \<open>Inl Diverges\<close>.
  \<^item> The random engine \<^verbatim>\<open>rand\<close> is the list of the raw values it is going to
    produce.
\<close>

type_synonym song = string

record queue_item =
  item_song :: song
  item_id :: nat
  item_version :: "32 word"
  item_priority :: "8 word"

record queue =
  max_length :: nat
  queue_length :: nat
  version :: "32 word"
  items :: "queue_item list"
  order :: "nat list"
  id_to_position :: "int list"
  repeat :: bool
  single :: bool
  consume :: bool
  random :: bool
  rand :: "nat list"

datatype error = AssertionFailed | Diverges

definition bind_r :: "error + 'a \<Rightarrow> ('a \<Rightarrow> error + 'b) \<Rightarrow> error + 'b" where
  "bind_r m f = (case m of Inl e \<Rightarrow> Inl e | Inr x \<Rightarrow> f x)"

subsection \<open>Machine arithmetic\<close>

definition G_MAXUINT :: nat where
  "G_MAXUINT = 2 ^ 32 - 1"

text \<open>Unsigned 32-bit addition, subtraction and multiplication, and the two conversions.\<close>

definition uadd :: "nat \<Rightarrow> nat \<Rightarrow> nat" where
  "uadd a b = (a + b) mod 2 ^ 32"

definition usub :: "nat \<Rightarrow> nat \<Rightarrow> nat" where
  "usub a b = (a + 2 ^ 32 - b mod 2 ^ 32) mod 2 ^ 32"

definition umul :: "nat \<Rightarrow> nat \<Rightarrow> nat" where
  "umul a b = (a * b) mod 2 ^ 32"

definition unsigned_to_int :: "nat \<Rightarrow> int" where
  "unsigned_to_int u = (if u < 2 ^ 31 then int u else int u - 2 ^ 32)"

definition int_to_unsigned :: "int \<Rightarrow> nat" where
  "int_to_unsigned i = nat (i mod 2 ^ 32)"

subsection \<open>Declarations of Queue.hxx\<close>

text \<open>
  Modelled from the spec: the header Queue.hxx (the constant \<^verbatim>\<open>QUEUE_HASH_MULT\<close> and
  the inline members \<^verbatim>\<open>IsFull\<close>, \<^verbatim>\<open>OrderToPosition\<close>, \<^verbatim>\<open>PositionToOrder\<close>,
  \<^verbatim>\<open>PositionToId\<close> and \<^verbatim>\<open>SwapOrders\<close>) is not among the sources. The spec gives
  the IdMap the length \<^verbatim>\<open>max_length * HASH_MULT\<close> with \<^verbatim>\<open>HASH_MULT\<close> at least 4,
  calls a queue full when it is at capacity, and says that \<^verbatim>\<open>order[k]\<close> is the
  position that plays at ordinal \<^verbatim>\<open>k\<close>; position-to-order is the inverse lookup, and
  a swap of two orders exchanges the two entries of the order array.
\<close>

definition QUEUE_HASH_MULT :: nat where
  "QUEUE_HASH_MULT = 4"

definition IsFull :: "queue \<Rightarrow> bool" where
  "IsFull q = (queue_length q \<ge> max_length q)"

definition OrderToPosition :: "queue \<Rightarrow> nat \<Rightarrow> error + nat" where
  "OrderToPosition q ord =
     (if \<not> ord < queue_length q then Inl AssertionFailed else Inr (order q ! ord))"

function PositionToOrder_from :: "queue \<Rightarrow> nat \<Rightarrow> nat \<Rightarrow> error + nat" where
  "PositionToOrder_from q position i =
     (if \<not> i < queue_length q then Inl AssertionFailed
      else if order q ! i = position then Inr i
      else PositionToOrder_from q position (i + 1))"
  by pat_completeness auto
termination
  by (relation "measure (\<lambda>(q, position, i). queue_length q - i)") auto

declare PositionToOrder_from.simps [simp del]

definition PositionToOrder :: "queue \<Rightarrow> nat \<Rightarrow> error + nat" where
  "PositionToOrder q position =
     (if \<not> position < queue_length q then Inl AssertionFailed
      else PositionToOrder_from q position 0)"

definition PositionToId :: "queue \<Rightarrow> nat \<Rightarrow> error + nat" where
  "PositionToId q position =
     (if \<not> position < queue_length q then Inl AssertionFailed
      else Inr (item_id (items q ! position)))"

definition SwapOrders :: "queue \<Rightarrow> nat \<Rightarrow> nat \<Rightarrow> queue" where
  "SwapOrders q order1 order2 =
     (let tmp = order q ! order1;
          o1 = (order q)[order1 := order q ! order2]
      in q\<lparr>order := o1[order2 := tmp]\<rparr>)"

subsection \<open>Construction\<close>

text \<open>
  The constructor leaves \<^verbatim>\<open>items\<close> and \<^verbatim>\<open>order\<close> uninitialised; the model fills
  them with a fixed item and with zeros. The second argument is the random engine.
\<close>

definition blank_item :: queue_item where
  "blank_item = \<lparr>item_song = [], item_id = 0, item_version = 0, item_priority = 0\<rparr>"

definition queue_init :: "nat \<Rightarrow> nat list \<Rightarrow> queue" where
  "queue_init n rs =
     \<lparr>max_length = n, queue_length = 0, version = 1,
      items = replicate n blank_item,
      order = replicate n 0,
      id_to_position = replicate (n * QUEUE_HASH_MULT) (- 1),
      repeat = False, single = False, consume = False, random = False,
      rand = rs\<rparr>"

subsection \<open>The identifier generator\<close>

text \<open>
  \<^verbatim>\<open>queue_generate_id\<close> advances the process-wide cursor \<^verbatim>\<open>cur\<close> (a static
  variable, here an argument) until it stands on a free slot of the IdMap. The loop has
  no bound: with no free slot it runs forever, which is the value \<open>None\<close>.
\<close>

partial_function (option) queue_generate_id :: "queue \<Rightarrow> nat \<Rightarrow> nat option" where
  "queue_generate_id q cur =
     (let cur1 = uadd cur 1;
          cur2 = (if cur1 \<ge> umul (max_length q) QUEUE_HASH_MULT then 0 else cur1)
      in if id_to_position q ! cur2 \<noteq> - 1 then queue_generate_id q cur2 else Some cur2)"

declare queue_generate_id.simps [code]

subsection \<open>The next song\<close>

definition GetNextOrder :: "queue \<Rightarrow> nat \<Rightarrow> error + int" where
  "GetNextOrder q ord =
     (if \<not> ord < queue_length q then Inl AssertionFailed
      else if single q \<and> repeat q \<and> \<not> consume q then Inr (unsigned_to_int ord)
      else if ord + 1 < queue_length q then Inr (unsigned_to_int (ord + 1))
      else if repeat q \<and> (ord > 0 \<or> \<not> consume q) then Inr 0
      else Inr (- 1))"

subsection \<open>Versions\<close>

definition IncrementVersion :: "queue \<Rightarrow> queue" where
  "IncrementVersion q =
     (let v = version q + 1
      in if v \<ge> (2 ^ 31 - 1 :: 32 word)
         then q\<lparr>items := fold (\<lambda>i its. its[i := (its ! i)\<lparr>item_version := 0\<rparr>])
                              [0..<queue_length q] (items q),
                 version := 1\<rparr>
         else q\<lparr>version := v\<rparr>)"

definition ModifyAtOrder :: "queue \<Rightarrow> nat \<Rightarrow> error + queue" where
  "ModifyAtOrder q ord =
     (if \<not> ord < queue_length q then Inl AssertionFailed
      else let position = order q ! ord
           in Inr (IncrementVersion
                (q\<lparr>items := (items q)[position :=
                      (items q ! position)\<lparr>item_version := version q\<rparr>]\<rparr>)))"

definition ModifyAll :: "queue \<Rightarrow> queue" where
  "ModifyAll q =
     IncrementVersion
       (q\<lparr>items := fold (\<lambda>i its. its[i := (its ! i)\<lparr>item_version := version q\<rparr>])
                        [0..<queue_length q] (items q)\<rparr>)"

subsection \<open>Append, swap and move\<close>

text \<open>
  \<^verbatim>\<open>song_dup_detached\<close> copies the song; the copy has the content of the original.
  Append returns the identifier, which is also the new value of the cursor.
\<close>

definition song_dup_detached :: "song \<Rightarrow> song" where
  "song_dup_detached s = s"

definition Append :: "queue \<Rightarrow> nat \<Rightarrow> song \<Rightarrow> 8 word \<Rightarrow> error + nat \<times> queue" where
  "Append q cur s prio =
     (case queue_generate_id q cur of
        None \<Rightarrow> Inl Diverges
      | Some ident \<Rightarrow>
          if IsFull q then Inl AssertionFailed
          else let n = queue_length q;
                   item = \<lparr>item_song = song_dup_detached s, item_id = ident,
                           item_version = version q, item_priority = prio\<rparr>
               in Inr (ident,
                    q\<lparr>items := (items q)[n := item],
                      order := (order q)[n := n],
                      id_to_position := (id_to_position q)[ident := unsigned_to_int n],
                      queue_length := n + 1\<rparr>))"

definition SwapPositions :: "queue \<Rightarrow> nat \<Rightarrow> nat \<Rightarrow> queue" where
  "SwapPositions q position1 position2 =
     (let id1 = item_id (items q ! position1);
          id2 = item_id (items q ! position2);
          its0 = (items q)[position1 := items q ! position2, position2 := items q ! position1];
          its1 = its0[position1 := (its0 ! position1)\<lparr>item_version := version q\<rparr>];
          its2 = its1[position2 := (its1 ! position2)\<lparr>item_version := version q\<rparr>];
          idp1 = (id_to_position q)[id1 := unsigned_to_int position2];
          idp2 = idp1[id2 := unsigned_to_int position1]
      in q\<lparr>items := its2, id_to_position := idp2\<rparr>)"

definition queue_move_song_to :: "queue \<Rightarrow> nat \<Rightarrow> nat \<Rightarrow> queue" where
  "queue_move_song_to q from to =
     (let from_id = item_id (items q ! from);
          its0 = (items q)[to := items q ! from];
          its1 = its0[to := (its0 ! to)\<lparr>item_version := version q\<rparr>]
      in q\<lparr>items := its1,
           id_to_position := (id_to_position q)[from_id := unsigned_to_int to]\<rparr>)"

definition MovePostion_order :: "nat \<Rightarrow> nat \<Rightarrow> nat \<Rightarrow> nat" where
  "MovePostion_order from to x =
     (if x > from \<and> x \<le> to then x - 1
      else if x < from \<and> x \<ge> to then x + 1
      else if from = x then to
      else x)"

definition MovePostion :: "queue \<Rightarrow> nat \<Rightarrow> nat \<Rightarrow> queue" where
  "MovePostion q from to =
     (let item = items q ! from;
          q1 = fold (\<lambda>i q. queue_move_song_to q (i + 1) i) [from..<to] q;
          q2 = fold (\<lambda>i q. queue_move_song_to q (i - 1) i) (rev [to + 1..<from + 1]) q1;
          q3 = q2\<lparr>id_to_position := (id_to_position q2)[item_id item := unsigned_to_int to],
                  items := (items q2)[to := item\<lparr>item_version := version q2\<rparr>]\<rparr>
      in if random q3
         then q3\<lparr>order := fold (\<lambda>i ord. ord[i := MovePostion_order from to (ord ! i)])
                              [0..<queue_length q3] (order q3)\<rparr>
         else q3)"

function MoveRange_down :: "queue \<Rightarrow> nat \<Rightarrow> nat \<Rightarrow> nat \<Rightarrow> nat \<Rightarrow> queue" where
  "MoveRange_down q start end to i =
     (if i \<ge> to \<and> i \<noteq> G_MAXUINT
      then MoveRange_down (queue_move_song_to q i (i + end - start)) start end to (usub i 1)
      else q)"
  by pat_completeness auto
termination
proof (relation "measure (\<lambda>(q, start, end, to, i).
         if i \<ge> 2 ^ 32 then 2 ^ 32 + 1 else if i = G_MAXUINT then 0 else i + 1)")
  show "wf (measure (\<lambda>(q :: queue, start :: nat, end :: nat, to :: nat, i :: nat).
         if i \<ge> 2 ^ 32 then 2 ^ 32 + 1 else if i = G_MAXUINT then 0 else i + 1))"
    by simp
next
  fix q :: queue and start "end" to i :: nat
  assume a: "to \<le> i \<and> i \<noteq> G_MAXUINT"
  have lt: "usub i 1 < 2 ^ 32"
    by (simp add: usub_def)
  show "((queue_move_song_to q i (i + end - start), start, end, to, usub i 1),
         (q, start, end, to, i))
        \<in> measure (\<lambda>(q, start, end, to, i).
             if i \<ge> 2 ^ 32 then 2 ^ 32 + 1 else if i = G_MAXUINT then 0 else i + 1)"
  proof (cases "i \<ge> 2 ^ 32")
    case True
    with lt show ?thesis by (simp add: G_MAXUINT_def)
  next
    case False
    show ?thesis
    proof (cases "i = 0")
      case True
      then show ?thesis by (simp add: usub_def G_MAXUINT_def)
    next
      case nz: False
      have e: "i + 2 ^ 32 - 1 = (i - 1) + 2 ^ 32"
        using nz by simp
      have "usub i 1 = (i + 2 ^ 32 - 1) mod 2 ^ 32"
        by (simp add: usub_def)
      also have "\<dots> = ((i - 1) + 2 ^ 32) mod 2 ^ 32"
        by (simp only: e)
      also have "\<dots> = (i - 1) mod 2 ^ 32"
        by (rule mod_add_self2)
      also have "\<dots> = i - 1"
        using False by (intro mod_less) simp
      finally have "usub i 1 = i - 1" .
      moreover have "i - 1 < 2 ^ 32" "i - 1 < i"
        using False nz by simp_all
      ultimately show ?thesis
        using False a by (simp add: G_MAXUINT_def)
    qed
  qed
qed

declare MoveRange_down.simps [simp del]

definition MoveRange_order :: "nat \<Rightarrow> nat \<Rightarrow> nat \<Rightarrow> nat \<Rightarrow> nat" where
  "MoveRange_order start end to x =
     (if x \<ge> end \<and> x < to + end - start then x - (end - start)
      else if x < start \<and> x \<ge> to then x + (end - start)
      else if start \<le> x \<and> x < end then uadd x (usub to start)
      else x)"

definition MoveRange :: "queue \<Rightarrow> nat \<Rightarrow> nat \<Rightarrow> nat \<Rightarrow> queue" where
  "MoveRange q start end to =
     (let tmp = map (\<lambda>i. items q ! i) [start..<end];
          q1 = fold (\<lambda>i q. queue_move_song_to q i (start + i - end))
                 [end..<end + to - start] q;
          q2 = MoveRange_down q1 start end to (usub start 1);
          q3 = fold (\<lambda>i q.
                   q\<lparr>id_to_position := (id_to_position q)
                        [item_id (tmp ! (i - start)) := unsigned_to_int (to + i - start)],
                     items := (items q)
                        [to + i - start := (tmp ! (i - start))\<lparr>item_version := version q\<rparr>]\<rparr>)
                 [start..<end] q2
      in if random q3
         then q3\<lparr>order := fold (\<lambda>i ord. ord[i := MoveRange_order start end to (ord ! i)])
                              [0..<queue_length q3] (order q3)\<rparr>
         else q3)"

subsection \<open>Moving an entry of the order array, deleting, clearing\<close>

definition queue_move_order :: "queue \<Rightarrow> nat \<Rightarrow> nat \<Rightarrow> error + queue" where
  "queue_move_order q from_order to_order =
     (if \<not> from_order < queue_length q then Inl AssertionFailed
      else if \<not> to_order \<le> queue_length q then Inl AssertionFailed
      else bind_r (OrderToPosition q from_order) (\<lambda>from_position.
        let ord1 =
              (if from_order < to_order
               then fold (\<lambda>i ord. ord[i := ord ! (i + 1)]) [from_order..<to_order] (order q)
               else fold (\<lambda>i ord. ord[i := ord ! (i - 1)])
                      (rev [to_order + 1..<from_order + 1]) (order q))
        in Inr (q\<lparr>order := ord1[to_order := from_position]\<rparr>)))"

text \<open>
  \<^verbatim>\<open>song_free\<close> releases the song of the deleted item; the model keeps no heap of
  songs, so nothing is left of it. Every song of the queue is a detached copy (Append
  stores \<^verbatim>\<open>song_dup_detached\<close>), which is what the assertions on the song ask for.
\<close>

definition DeletePosition :: "queue \<Rightarrow> nat \<Rightarrow> error + queue" where
  "DeletePosition q position =
     (if \<not> position < queue_length q then Inl AssertionFailed
      else bind_r (PositionToId q position) (\<lambda>ident.
           bind_r (PositionToOrder q position) (\<lambda>ord.
        let n = queue_length q - 1;
            q1 = q\<lparr>queue_length := n,
                   id_to_position := (id_to_position q)[ident := - 1]\<rparr>;
            q2 = fold (\<lambda>i q. queue_move_song_to q (i + 1) i) [position..<n] q1;
            ord1 = fold (\<lambda>i ord. ord[i := ord ! (i + 1)]) [ord..<n] (order q2);
            ord2 = fold (\<lambda>i ord. if ord ! i > position then ord[i := ord ! i - 1] else ord)
                     [0..<n] ord1
        in Inr (q2\<lparr>order := ord2\<rparr>))))"

definition Clear :: "queue \<Rightarrow> queue" where
  "Clear q =
     q\<lparr>id_to_position := fold (\<lambda>i idp. idp[item_id (items q ! i) := - 1])
                             [0..<queue_length q] (id_to_position q),
       queue_length := 0\<rparr>"

subsection \<open>Priorities and shuffling\<close>

definition queue_get_order_item_const :: "queue \<Rightarrow> nat \<Rightarrow> error + queue_item" where
  "queue_get_order_item_const q ord =
     (if \<not> ord < queue_length q then Inl AssertionFailed
      else Inr (items q ! (order q ! ord)))"

definition queue_get_order_priority :: "queue \<Rightarrow> nat \<Rightarrow> error + 8 word" where
  "queue_get_order_priority q ord =
     bind_r (queue_get_order_item_const q ord) (\<lambda>item. Inr (item_priority item))"

definition queue_item_compare_order_priority :: "queue \<Rightarrow> nat \<Rightarrow> nat \<Rightarrow> int" where
  "queue_item_compare_order_priority q av bv =
     (let a = item_priority (items q ! av);
          b = item_priority (items q ! bv)
      in if a = b then 0 else if a > b then - 1 else 1)"

text \<open>
  GLib's \<^verbatim>\<open>g_qsort_with_data\<close> is a stable merge sort; its model is the stable
  insertion sort driven by the same comparator: \<open>x\<close> goes before \<open>y\<close> when the
  comparator does not return a positive number.
\<close>

fun insert_by :: "('a \<Rightarrow> 'a \<Rightarrow> int) \<Rightarrow> 'a \<Rightarrow> 'a list \<Rightarrow> 'a list" where
  "insert_by cmp x [] = [x]"
| "insert_by cmp x (y # ys) =
     (if cmp x y \<le> 0 then x # y # ys else y # insert_by cmp x ys)"

definition g_qsort_with_data :: "('a \<Rightarrow> 'a \<Rightarrow> int) \<Rightarrow> 'a list \<Rightarrow> 'a list" where
  "g_qsort_with_data cmp xs = foldr (insert_by cmp) xs []"

definition queue_sort_order_by_priority :: "queue \<Rightarrow> nat \<Rightarrow> nat \<Rightarrow> error + queue" where
  "queue_sort_order_by_priority q start end =
     (if \<not> random q then Inl AssertionFailed
      else if \<not> start \<le> end then Inl AssertionFailed
      else if \<not> end \<le> queue_length q then Inl AssertionFailed
      else Inr (q\<lparr>order := take start (order q)
                   @ g_qsort_with_data (queue_item_compare_order_priority q)
                       (take (end - start) (drop start (order q)))
                   @ drop end (order q)\<rparr>))"

text \<open>
  \<^verbatim>\<open>std::uniform_int_distribution<unsigned>(a, b)\<close> applied to the engine: a value
  between \<open>a\<close> and \<open>b\<close>, both included, read off the next raw value.
\<close>

definition uniform_int_distribution :: "queue \<Rightarrow> nat \<Rightarrow> nat \<Rightarrow> nat \<times> queue" where
  "uniform_int_distribution q a b =
     (case rand q of
        [] \<Rightarrow> (a, q)
      | r # rs \<Rightarrow> (a + r mod (b - a + 1), q\<lparr>rand := rs\<rparr>))"

text \<open>
  \<^verbatim>\<open>std::shuffle\<close> over \<^verbatim>\<open>order[start .. end)\<close>: each entry after the first is
  swapped with a uniformly drawn entry at or before it.
\<close>

definition std_shuffle :: "queue \<Rightarrow> nat \<Rightarrow> nat \<Rightarrow> queue" where
  "std_shuffle q start end =
     fold (\<lambda>i q. case uniform_int_distribution q start i of (j, q') \<Rightarrow> SwapOrders q' i j)
       [start + 1..<end] q"

definition ShuffleOrderRange :: "queue \<Rightarrow> nat \<Rightarrow> nat \<Rightarrow> error + queue" where
  "ShuffleOrderRange q start end =
     (if \<not> random q then Inl AssertionFailed
      else if \<not> start \<le> end then Inl AssertionFailed
      else if \<not> end \<le> queue_length q then Inl AssertionFailed
      else Inr (std_shuffle q start end))"

function ShuffleOrderRangeWithPriority_groups ::
    "queue \<Rightarrow> nat \<Rightarrow> nat \<Rightarrow> 8 word \<Rightarrow> nat \<Rightarrow> error + queue \<times> nat" where
  "ShuffleOrderRangeWithPriority_groups q end group_start group_priority i =
     (if i < end
      then bind_r (queue_get_order_priority q i) (\<lambda>priority.
        if \<not> priority \<le> group_priority then Inl AssertionFailed
        else if priority \<noteq> group_priority
        then bind_r (ShuffleOrderRange q group_start i) (\<lambda>q'.
               ShuffleOrderRangeWithPriority_groups q' end i priority (i + 1))
        else ShuffleOrderRangeWithPriority_groups q end group_start group_priority (i + 1))
      else Inr (q, group_start))"
  by pat_completeness auto
termination
  by (relation "measure (\<lambda>(q, end, group_start, group_priority, i). end - i)") auto

declare ShuffleOrderRangeWithPriority_groups.simps [simp del]

definition ShuffleOrderRangeWithPriority :: "queue \<Rightarrow> nat \<Rightarrow> nat \<Rightarrow> error + queue" where
  "ShuffleOrderRangeWithPriority q start end =
     (if \<not> random q then Inl AssertionFailed
      else if \<not> start \<le> end then Inl AssertionFailed
      else if \<not> end \<le> queue_length q then Inl AssertionFailed
      else if start = end then Inr q
      else bind_r (queue_sort_order_by_priority q start end) (\<lambda>q1.
           bind_r (queue_get_order_priority q1 start) (\<lambda>group_priority.
           bind_r (ShuffleOrderRangeWithPriority_groups q1 end start group_priority (start + 1))
             (\<lambda>(q2, group_start). ShuffleOrderRange q2 group_start end))))"

definition ShuffleOrder :: "queue \<Rightarrow> error + queue" where
  "ShuffleOrder q = ShuffleOrderRangeWithPriority q 0 (queue_length q)"

definition ShuffleOrderFirst :: "queue \<Rightarrow> nat \<Rightarrow> nat \<Rightarrow> queue" where
  "ShuffleOrderFirst q start end =
     (case uniform_int_distribution q start (usub end 1) of
        (r, q') \<Rightarrow> SwapOrders q' start r)"

definition ShuffleOrderLast :: "queue \<Rightarrow> nat \<Rightarrow> nat \<Rightarrow> queue" where
  "ShuffleOrderLast q start end =
     (case uniform_int_distribution q start (usub end 1) of
        (r, q') \<Rightarrow> SwapOrders q' (usub end 1) r)"

definition ShuffleRange :: "queue \<Rightarrow> nat \<Rightarrow> nat \<Rightarrow> error + queue" where
  "ShuffleRange q start end =
     (if \<not> start \<le> end then Inl AssertionFailed
      else if \<not> end \<le> queue_length q then Inl AssertionFailed
      else Inr (fold (\<lambda>i q. case uniform_int_distribution q start (usub end 1) of
                              (ri, q') \<Rightarrow> SwapPositions q' i ri)
                  [start..<end] q))"

subsection \<open>Setting priorities\<close>

function queue_find_priority_order_from ::
    "queue \<Rightarrow> 8 word \<Rightarrow> nat \<Rightarrow> nat \<Rightarrow> error + nat" where
  "queue_find_priority_order_from q priority exclude_order ord =
     (if ord < queue_length q
      then bind_r (OrderToPosition q ord) (\<lambda>position.
        if item_priority (items q ! position) \<le> priority \<and> ord \<noteq> exclude_order
        then Inr ord
        else queue_find_priority_order_from q priority exclude_order (ord + 1))
      else Inr (queue_length q))"
  by pat_completeness auto
termination
  by (relation "measure (\<lambda>(q, priority, exclude_order, ord). queue_length q - ord)") auto

declare queue_find_priority_order_from.simps [simp del]

definition queue_find_priority_order ::
    "queue \<Rightarrow> nat \<Rightarrow> 8 word \<Rightarrow> nat \<Rightarrow> error + nat" where
  "queue_find_priority_order q start_order priority exclude_order =
     (if \<not> random q then Inl AssertionFailed
      else if \<not> start_order \<le> queue_length q then Inl AssertionFailed
      else queue_find_priority_order_from q priority exclude_order start_order)"

function queue_count_same_priority_from ::
    "queue \<Rightarrow> nat \<Rightarrow> 8 word \<Rightarrow> nat \<Rightarrow> error + nat" where
  "queue_count_same_priority_from q start_order priority ord =
     (if ord < queue_length q
      then bind_r (OrderToPosition q ord) (\<lambda>position.
        if item_priority (items q ! position) \<noteq> priority
        then Inr (ord - start_order)
        else queue_count_same_priority_from q start_order priority (ord + 1))
      else Inr (queue_length q - start_order))"
  by pat_completeness auto
termination
  by (relation "measure (\<lambda>(q, start_order, priority, ord). queue_length q - ord)") auto

declare queue_count_same_priority_from.simps [simp del]

definition queue_count_same_priority :: "queue \<Rightarrow> nat \<Rightarrow> 8 word \<Rightarrow> error + nat" where
  "queue_count_same_priority q start_order priority =
     (if \<not> random q then Inl AssertionFailed
      else if \<not> start_order \<le> queue_length q then Inl AssertionFailed
      else queue_count_same_priority_from q start_order priority start_order)"

definition SetPriority :: "queue \<Rightarrow> nat \<Rightarrow> 8 word \<Rightarrow> int \<Rightarrow> error + bool \<times> queue" where
  "SetPriority q position priority after_order =
     (if \<not> position < queue_length q then Inl AssertionFailed
      else
        let old_priority = item_priority (items q ! position)
        in if old_priority = priority then Inr (False, q)
        else
          let q1 = q\<lparr>items := (items q)[position :=
                     (items q ! position)\<lparr>item_version := version q,
                                           item_priority := priority\<rparr>]\<rparr>
          in if \<not> random q1 then Inr (True, q1)
          else bind_r (PositionToOrder q1 position) (\<lambda>ord.
            if after_order \<ge> 0 \<and> ord = int_to_unsigned after_order then Inr (True, q1)
            else bind_r
              (if after_order \<ge> 0 \<and> ord < int_to_unsigned after_order
               then bind_r (OrderToPosition q1 (int_to_unsigned after_order))
                      (\<lambda>after_position.
                         let after_item = items q1 ! after_position
                         in Inr (old_priority > item_priority after_item
                                 \<or> priority \<le> item_priority after_item))
               else Inr False)
              (\<lambda>played. if played then Inr (True, q1)
                 else bind_r (queue_find_priority_order q1
                                (int_to_unsigned (after_order + 1)) priority ord)
                        (\<lambda>before_order.
                   let new_order = (if before_order > ord then before_order - 1
                                    else before_order)
                   in bind_r (queue_move_order q1 ord new_order) (\<lambda>q2.
                      bind_r (queue_count_same_priority q2 new_order priority)
                        (\<lambda>priority_count.
                      if \<not> priority_count \<ge> 1 then Inl AssertionFailed
                      else Inr (True,
                             ShuffleOrderFirst q2 new_order (new_order + priority_count))))))))"

function SetPriorityRange_from ::
    "queue \<Rightarrow> nat \<Rightarrow> 8 word \<Rightarrow> int \<Rightarrow> bool \<Rightarrow> nat \<Rightarrow> error + bool \<times> queue" where
  "SetPriorityRange_from q end_position priority after_position modified i =
     (if i < end_position
      then bind_r
             (if after_position \<ge> 0
              then bind_r (PositionToOrder q (int_to_unsigned after_position))
                     (\<lambda>ord. Inr (unsigned_to_int ord))
              else Inr (- 1))
             (\<lambda>after_order.
               bind_r (SetPriority q i priority after_order) (\<lambda>(m, q').
                 SetPriorityRange_from q' end_position priority after_position
                   (modified \<or> m) (i + 1)))
      else Inr (modified, q))"
  by pat_completeness auto
termination
  by (relation "measure (\<lambda>(q, end_position, priority, after_position, modified, i).
        end_position - i)") auto

declare SetPriorityRange_from.simps [simp del]

definition SetPriorityRange ::
    "queue \<Rightarrow> nat \<Rightarrow> nat \<Rightarrow> 8 word \<Rightarrow> int \<Rightarrow> error + bool \<times> queue" where
  "SetPriorityRange q start_position end_position priority after_order =
     (if \<not> start_position \<le> end_position then Inl AssertionFailed
      else if \<not> end_position \<le> queue_length q then Inl AssertionFailed
      else bind_r
             (if after_order \<ge> 0
              then bind_r (OrderToPosition q (int_to_unsigned after_order))
                     (\<lambda>position. Inr (unsigned_to_int position))
              else Inr (- 1))
             (\<lambda>after_position.
               SetPriorityRange_from q end_position priority after_position False
                 start_position))"

subsection \<open>The public mutating operations\<close>

text \<open>
  A caller's view of the queue: the operations by name, applied one after the other to
  the pair of the identifier cursor and the queue. The results of Append (the
  identifier) and of SetPriority (whether it changed anything) are dropped.
\<close>

datatype operation =
    OpAppend song "8 word"
  | OpDeletePosition nat
  | OpClear
  | OpSwapPositions nat nat
  | OpMovePostion nat nat
  | OpMoveRange nat nat nat
  | OpSetPriority nat "8 word" int
  | OpSetPriorityRange nat nat "8 word" int
  | OpShuffleRange nat nat
  | OpShuffleOrderRangeWithPriority nat nat
  | OpShuffleOrderFirst nat nat
  | OpShuffleOrderLast nat nat

fun apply_operation :: "nat \<times> queue \<Rightarrow> operation \<Rightarrow> error + nat \<times> queue" where
  "apply_operation (cur, q) (OpAppend s prio) = Append q cur s prio"
| "apply_operation (cur, q) (OpDeletePosition position) =
     bind_r (DeletePosition q position) (\<lambda>q'. Inr (cur, q'))"
| "apply_operation (cur, q) OpClear = Inr (cur, Clear q)"
| "apply_operation (cur, q) (OpSwapPositions position1 position2) =
     Inr (cur, SwapPositions q position1 position2)"
| "apply_operation (cur, q) (OpMovePostion from to) = Inr (cur, MovePostion q from to)"
| "apply_operation (cur, q) (OpMoveRange start end to) = Inr (cur, MoveRange q start end to)"
| "apply_operation (cur, q) (OpSetPriority position priority after_order) =
     bind_r (SetPriority q position priority after_order) (\<lambda>(m, q'). Inr (cur, q'))"
| "apply_operation (cur, q) (OpSetPriorityRange start_position end_position priority after_order) =
     bind_r (SetPriorityRange q start_position end_position priority after_order)
       (\<lambda>(m, q'). Inr (cur, q'))"
| "apply_operation (cur, q) (OpShuffleRange start end) =
     bind_r (ShuffleRange q start end) (\<lambda>q'. Inr (cur, q'))"
| "apply_operation (cur, q) (OpShuffleOrderRangeWithPriority start end) =
     bind_r (ShuffleOrderRangeWithPriority q start end) (\<lambda>q'. Inr (cur, q'))"
| "apply_operation (cur, q) (OpShuffleOrderFirst start end) =
     Inr (cur, ShuffleOrderFirst q start end)"
| "apply_operation (cur, q) (OpShuffleOrderLast start end) =
     Inr (cur, ShuffleOrderLast q start end)"

fun run :: "nat \<times> queue \<Rightarrow> operation list \<Rightarrow> error + nat \<times> queue" where
  "run w [] = Inr w"
| "run w (opn # ops) = bind_r (apply_operation w opn) (\<lambda>w'. run w' ops)"

text \<open>
  The preconditions of the operations: the assertions of the source and, for the
  functions that assert nothing, the index ranges their callers keep (positions and
  orders below the length, a non-empty range for the single random swaps, the
  destination of MoveRange inside the queue that is left when the block is taken out,
  \<^verbatim>\<open>after_order\<close> an order of the queue or -1).
\<close>

fun operation_pre :: "queue \<Rightarrow> operation \<Rightarrow> bool" where
  "operation_pre q (OpAppend s prio) = (queue_length q < max_length q)"
| "operation_pre q (OpDeletePosition position) = (position < queue_length q)"
| "operation_pre q OpClear = True"
| "operation_pre q (OpSwapPositions position1 position2) =
     (position1 < queue_length q \<and> position2 < queue_length q)"
| "operation_pre q (OpMovePostion from to) = (from < queue_length q \<and> to < queue_length q)"
| "operation_pre q (OpMoveRange start end to) =
     (start \<le> end \<and> end \<le> queue_length q \<and> to \<le> queue_length q - (end - start))"
| "operation_pre q (OpSetPriority position priority after_order) =
     (position < queue_length q \<and> - 1 \<le> after_order \<and> after_order < int (queue_length q))"
| "operation_pre q (OpSetPriorityRange start_position end_position priority after_order) =
     (start_position \<le> end_position \<and> end_position \<le> queue_length q
      \<and> - 1 \<le> after_order \<and> after_order < int (queue_length q))"
| "operation_pre q (OpShuffleRange start end) = (start \<le> end \<and> end \<le> queue_length q)"
| "operation_pre q (OpShuffleOrderRangeWithPriority start end) =
     (random q \<and> start \<le> end \<and> end \<le> queue_length q)"
| "operation_pre q (OpShuffleOrderFirst start end) = (start < end \<and> end \<le> queue_length q)"
| "operation_pre q (OpShuffleOrderLast start end) = (start < end \<and> end \<le> queue_length q)"

text \<open>The preconditions hold all along a sequence of operations.\<close>

fun run_pre :: "nat \<times> queue \<Rightarrow> operation list \<Rightarrow> bool" where
  "run_pre w [] = True"
| "run_pre w (opn # ops) =
     (operation_pre (snd w) opn \<and>
      (case apply_operation w opn of Inl e \<Rightarrow> True | Inr w' \<Rightarrow> run_pre w' ops))"

subsection \<open>The invariants of the data model\<close>

text \<open>
  The allocation: the three arrays have the sizes the constructor gave them, the length
  is within the capacity, and the size of the IdMap fits an \<^verbatim>\<open>unsigned\<close> (so that
  every position fits the \<^verbatim>\<open>int\<close> that the IdMap stores).
\<close>

definition queue_alloc :: "queue \<Rightarrow> bool" where
  "queue_alloc q \<longleftrightarrow>
     0 < max_length q \<and> max_length q * QUEUE_HASH_MULT < 2 ^ 32 \<and>
     queue_length q \<le> max_length q \<and>
     length (items q) = max_length q \<and>
     length (order q) = max_length q \<and>
     length (id_to_position q) = max_length q * QUEUE_HASH_MULT"

text \<open>
  The IdMap: every live item is bound to its position, and every other slot holds the
  sentinel (a slot that does not hold the sentinel holds the position of the live item
  with that identifier).
\<close>

definition id_map_ok :: "queue \<Rightarrow> bool" where
  "id_map_ok q \<longleftrightarrow>
     (\<forall>p < queue_length q.
        item_id (items q ! p) < length (id_to_position q) \<and>
        id_to_position q ! item_id (items q ! p) = int p) \<and>
     (\<forall>i < length (id_to_position q).
        id_to_position q ! i = - 1 \<or>
        (0 \<le> id_to_position q ! i \<and>
         nat (id_to_position q ! i) < queue_length q \<and>
         item_id (items q ! nat (id_to_position q ! i)) = i))"

text \<open>The order array, up to the length, is a permutation of the positions.\<close>

definition order_is_permutation :: "queue \<Rightarrow> bool" where
  "order_is_permutation q \<longleftrightarrow>
     mset (take (queue_length q) (order q)) = mset [0..<queue_length q]"

definition queue_inv :: "queue \<Rightarrow> bool" where
  "queue_inv q \<longleftrightarrow> queue_alloc q \<and> id_map_ok q \<and> order_is_permutation q"

text \<open>The priorities read along the order array, first to last.\<close>

definition order_priorities :: "queue \<Rightarrow> 8 word list" where
  "order_priorities q =
     map (\<lambda>p. item_priority (items q ! p)) (take (queue_length q) (order q))"

definition priorities_non_increasing :: "queue \<Rightarrow> bool" where
  "priorities_non_increasing q \<longleftrightarrow> sorted_wrt (\<lambda>a b. a \<ge> b) (order_priorities q)"

subsection \<open>Queues for the scenarios\<close>

definition song_item :: "song \<Rightarrow> nat \<Rightarrow> 8 word \<Rightarrow> queue_item" where
  "song_item s ident prio =
     \<lparr>item_song = s, item_id = ident, item_version = 1, item_priority = prio\<rparr>"

text \<open>The queue of capacity 4 after Append of A, B and C.\<close>

definition queue_ABC :: queue where
  "queue_ABC =
     \<lparr>max_length = 4, queue_length = 3, version = 1,
      items = [song_item ''A'' 0 0, song_item ''B'' 1 0, song_item ''C'' 2 0, blank_item],
      order = [0, 1, 2, 0],
      id_to_position = [0, 1, 2, - 1, - 1, - 1, - 1, - 1, - 1, - 1, - 1, - 1, - 1, - 1, - 1, - 1],
      repeat = False, single = False, consume = False, random = False,
      rand = []\<rparr>"

text \<open>The queue of capacity 5 that holds A, B, C, D and E: a full queue.\<close>

definition queue_ABCDE :: queue where
  "queue_ABCDE =
     \<lparr>max_length = 5, queue_length = 5, version = 1,
      items = [song_item ''A'' 0 0, song_item ''B'' 1 0, song_item ''C'' 2 0,
               song_item ''D'' 3 0, song_item ''E'' 4 0],
      order = [0, 1, 2, 3, 4],
      id_to_position = [0, 1, 2, 3, 4, - 1, - 1, - 1, - 1, - 1, - 1, - 1, - 1, - 1, - 1,
                        - 1, - 1, - 1, - 1, - 1],
      repeat = False, single = False, consume = False, random = False,
      rand = []\<rparr>"

text \<open>The queue of capacity 4 after Append of A.\<close>

definition queue_A :: queue where
  "queue_A =
     \<lparr>max_length = 4, queue_length = 1, version = 1,
      items = [song_item ''A'' 0 0, blank_item, blank_item, blank_item],
      order = [0, 0, 0, 0],
      id_to_position = [0, - 1, - 1, - 1, - 1, - 1, - 1, - 1, - 1, - 1, - 1, - 1, - 1, - 1, - 1, - 1],
      repeat = False, single = False, consume = False, random = False,
      rand = []\<rparr>"

text \<open>The queue of A, B and C with the version counter at \<open>2 ^ 31 - 2\<close>.\<close>

definition queue_wrap :: queue where
  "queue_wrap = queue_ABC\<lparr>version := 2147483646\<rparr>"

text \<open>One step of the cursor of the identifier generator over an IdMap of \<open>N\<close> slots.\<close>

definition next_cursor :: "nat \<Rightarrow> nat \<Rightarrow> nat" where
  "next_cursor N cur = (if uadd cur 1 \<ge> N then 0 else uadd cur 1)"

text \<open>
  Where position \<open>x\<close> goes when the block of \<open>len\<close> positions from \<open>start\<close> is taken out
  and put back to begin at \<open>to\<close>: the block moves as a whole, and the positions between
  its old and its new place close the gap.
\<close>

definition block_move :: "nat \<Rightarrow> nat \<Rightarrow> nat \<Rightarrow> nat \<Rightarrow> nat" where
  "block_move start len to x =
     (if start \<le> x \<and> x < start + len then x + to - start
      else if start + len \<le> x \<and> x < to + len then x - len
      else if to \<le> x \<and> x < start then x + len
      else x)"

text \<open>The queue of A, B and C in random mode, and the queue a run leaves of it.\<close>

definition queue_R :: queue where
  "queue_R = queue_ABC\<lparr>random := True, rand := [1, 5]\<rparr>"

definition queue_AB :: queue where
  "queue_AB =
     \<lparr>max_length = 4, queue_length = 2, version = 1,
      items = [song_item ''A'' 0 7, song_item ''B'' 1 0, song_item ''B'' 1 0, blank_item],
      order = [0, 1, 0, 0],
      id_to_position = [0, 1, - 1, - 1, - 1, - 1, - 1, - 1, - 1, - 1, - 1, - 1, - 1, - 1, - 1, - 1],
      repeat = False, single = False, consume = False, random = True,
      rand = [5]\<rparr>"

section \<open>Properties\<close>

subsection \<open>Machine arithmetic and the scenario queues\<close>

lemmas machine_defs = G_MAXUINT_def uadd_def usub_def umul_def unsigned_to_int_def
  int_to_unsigned_def QUEUE_HASH_MULT_def

lemma unsigned_to_int_small: "n < 2 ^ 31 \<Longrightarrow> unsigned_to_int n = int n"
  by (simp add: unsigned_to_int_def)

lemma position_small: "queue_alloc q \<Longrightarrow> p \<le> queue_length q \<Longrightarrow> p < 2 ^ 31"
  by (simp add: queue_alloc_def QUEUE_HASH_MULT_def)

lemma queue_ABC_inv: "queue_inv queue_ABC"
proof -
  have "queue_alloc queue_ABC"
    by (simp add: queue_alloc_def queue_ABC_def QUEUE_HASH_MULT_def)
  moreover have "order_is_permutation queue_ABC"
    by (simp add: order_is_permutation_def queue_ABC_def upt_conv_Cons)
  moreover have "id_map_ok queue_ABC"
    unfolding id_map_ok_def queue_ABC_def song_item_def
    by (simp add: less_Suc_eq eval_nat_numeral all_conj_distrib)
  ultimately show ?thesis
    by (simp add: queue_inv_def)
qed

lemma queue_ABCDE_inv: "queue_inv queue_ABCDE"
proof -
  have "queue_alloc queue_ABCDE"
    by (simp add: queue_alloc_def queue_ABCDE_def QUEUE_HASH_MULT_def)
  moreover have "order_is_permutation queue_ABCDE"
    by (simp add: order_is_permutation_def queue_ABCDE_def upt_conv_Cons eval_nat_numeral)
  moreover have "id_map_ok queue_ABCDE"
    unfolding id_map_ok_def queue_ABCDE_def song_item_def
    by (simp add: less_Suc_eq eval_nat_numeral all_conj_distrib)
  ultimately show ?thesis
    by (simp add: queue_inv_def)
qed

lemma queue_inv_flags:
  "queue_inv (q\<lparr>random := b\<rparr>) = queue_inv q"
  "queue_inv (q\<lparr>repeat := b\<rparr>) = queue_inv q"
  "queue_inv (q\<lparr>single := b\<rparr>) = queue_inv q"
  "queue_inv (q\<lparr>consume := b\<rparr>) = queue_inv q"
  "queue_inv (q\<lparr>rand := rs\<rparr>) = queue_inv q"
  "queue_inv (q\<lparr>version := v\<rparr>) = queue_inv q"
  by (simp_all add: queue_inv_def queue_alloc_def id_map_ok_def order_is_permutation_def)

lemma fold_unchanged: "fold (\<lambda>i xs. xs) ns xs = xs"
  by (induction ns) simp_all

subsection \<open>The next song: claim C2\<close>

text \<open>
  Claim C2. For an order index below the length, GetNextOrder returns the index itself
  when single and repeat are set and consume is not; otherwise the following index when
  there is one; otherwise 0 when repeat is set and the index is not 0 or consume is not
  set; otherwise -1, the end of the queue. The cases are tried in this order and the
  first that applies decides. With repeat and single set and consume not set, at order
  1 of three, the result is 1. The length is at most \<open>2 ^ 31\<close>, so that the order
  index returned fits the \<^verbatim>\<open>int\<close> it is returned as.
\<close>

theorem GetNextOrder_table:
  assumes "ord < queue_length q" and "queue_length q \<le> 2 ^ 31"
  shows "GetNextOrder q ord =
           Inr (if single q \<and> repeat q \<and> \<not> consume q then int ord
                else if ord + 1 < queue_length q then int ord + 1
                else if repeat q \<and> (0 < ord \<or> \<not> consume q) then 0
                else - 1)
         \<and> (queue_length q = 3 \<and> ord = 1 \<and> repeat q \<and> single q \<and> \<not> consume q
              \<longrightarrow> GetNextOrder q ord = Inr 1)"
proof -
  from assms have c1: "unsigned_to_int ord = int ord"
    by (simp add: unsigned_to_int_small)
  have table: "GetNextOrder q ord =
           Inr (if single q \<and> repeat q \<and> \<not> consume q then int ord
                else if ord + 1 < queue_length q then int ord + 1
                else if repeat q \<and> (0 < ord \<or> \<not> consume q) then 0
                else - 1)"
  proof (cases "ord + 1 < queue_length q")
    case True
    with assms have "unsigned_to_int (ord + 1) = int ord + 1"
      by (simp add: unsigned_to_int_small)
    with True assms c1 show ?thesis
      by (simp add: GetNextOrder_def)
  next
    case False
    with assms c1 show ?thesis
      by (simp add: GetNextOrder_def)
  qed
  have "GetNextOrder q ord = Inr 1"
    if "queue_length q = 3 \<and> ord = 1 \<and> repeat q \<and> single q \<and> \<not> consume q"
    using that table by simp
  with table show ?thesis
    by blast
qed

theorem GetNextOrder_table_witness:
  "(1 :: nat) < queue_length (queue_ABC\<lparr>repeat := True, single := True\<rparr>)
   \<and> queue_length (queue_ABC\<lparr>repeat := True, single := True\<rparr>) \<le> 2 ^ 31
   \<and> GetNextOrder (queue_ABC\<lparr>repeat := True, single := True\<rparr>) 1 = Inr 1"
  using GetNextOrder_table [of 1 "queue_ABC\<lparr>repeat := True, single := True\<rparr>"]
  by (simp add: queue_ABC_def)

subsection \<open>Setting the priority an item has: claim C7\<close>

text \<open>
  Claim C7. SetPriority at a valid position, with the priority the item has already and
  any \<^verbatim>\<open>after_order\<close>, returns false and the queue it was given: items with their
  stamps, order array, IdMap, length, version counter and flags are what they were.
\<close>

theorem SetPriority_unchanged:
  assumes "position < queue_length q"
  shows "SetPriority q position (item_priority (items q ! position)) after_order = Inr (False, q)"
  using assms by (simp add: SetPriority_def)

theorem SetPriority_unchanged_witness:
  "(2 :: nat) < queue_length queue_ABC
   \<and> SetPriority queue_ABC 2 (item_priority (items queue_ABC ! 2)) (- 1) = Inr (False, queue_ABC)"
  using SetPriority_unchanged [of 2 queue_ABC "- 1"]
  by (simp add: queue_ABC_def)

subsection \<open>Moving an item onto its own position: claim C10\<close>

text \<open>
  Claim C10. In a queue that satisfies the invariants, MovePostion from a valid position
  to the same position changes nothing but the stamp of the item there, which becomes
  the version counter: the items at all positions, the order array (in random mode
  too), the IdMap, the length, the flags and the counter stay.
\<close>

theorem MovePostion_onto_itself:
  assumes "queue_inv q" and "p < queue_length q"
  shows "MovePostion q p p =
           q\<lparr>items := (items q)[p := (items q ! p)\<lparr>item_version := version q\<rparr>]\<rparr>"
proof -
  from assms have idp: "id_to_position q ! item_id (items q ! p) = int p"
    by (simp add: queue_inv_def id_map_ok_def)
  from assms have "p < 2 ^ 31"
    using position_small [of q p] by (simp add: queue_inv_def)
  then have conv: "unsigned_to_int p = int p"
    by (rule unsigned_to_int_small)
  have same: "(id_to_position q)[item_id (items q ! p) := int p] = id_to_position q"
    using idp by (metis list_update_id)
  have ord: "MovePostion_order p p = (\<lambda>x. x)"
    by (rule ext) (simp add: MovePostion_order_def)
  show ?thesis
    by (simp add: MovePostion_def Let_def conv same ord fold_unchanged)
qed

theorem MovePostion_onto_itself_witness:
  "queue_inv (queue_ABC\<lparr>random := True\<rparr>)
   \<and> (1 :: nat) < queue_length (queue_ABC\<lparr>random := True\<rparr>)
   \<and> MovePostion (queue_ABC\<lparr>random := True\<rparr>) 1 1 =
       queue_ABC\<lparr>random := True,
         items := [song_item ''A'' 0 0, song_item ''B'' 1 0, song_item ''C'' 2 0, blank_item]\<rparr>"
proof -
  have i: "queue_inv (queue_ABC\<lparr>random := True\<rparr>)"
    by (simp add: queue_inv_flags queue_ABC_inv)
  have l: "(1 :: nat) < queue_length (queue_ABC\<lparr>random := True\<rparr>)"
    by (simp add: queue_ABC_def)
  show ?thesis
    using i l MovePostion_onto_itself [OF i l]
    by (simp add: queue_ABC_def song_item_def)
qed

subsection \<open>Three appended songs: claim C8\<close>

lemma Append_Inr:
  assumes "Append q cur s prio = Inr (ident, q')"
  shows "queue_length q < max_length q"
    and "queue_generate_id q cur = Some ident"
    and "q' = q\<lparr>items := (items q)[queue_length q :=
                   \<lparr>item_song = song_dup_detached s, item_id = ident,
                    item_version = version q, item_priority = prio\<rparr>],
                order := (order q)[queue_length q := queue_length q],
                id_to_position := (id_to_position q)[ident := unsigned_to_int (queue_length q)],
                queue_length := queue_length q + 1\<rparr>"
  using assms
  by (auto simp: Append_def IsFull_def Let_def split: option.splits if_splits)

lemma replicate_4: "replicate 4 x = [x, x, x, x]"
  by (simp add: eval_nat_numeral)

lemma replicate_16: "replicate 16 x = [x, x, x, x, x, x, x, x, x, x, x, x, x, x, x, x]"
  by (simp add: eval_nat_numeral)

lemma run_Append_A:
  "run (G_MAXUINT, queue_init 4 []) [OpAppend ''A'' 0] = Inr (0, queue_A)"
  by (simp add: queue_init_def bind_r_def Append_def queue_generate_id.simps machine_defs
      IsFull_def song_dup_detached_def queue_A_def song_item_def replicate_4 replicate_16)

lemma run_Append_BC:
  "run (0, queue_A) [OpAppend ''B'' 0, OpAppend ''C'' 0] = Inr (2, queue_ABC)"
  by (simp add: queue_ABC_def bind_r_def Append_def queue_generate_id.simps machine_defs
      IsFull_def song_dup_detached_def queue_A_def song_item_def replicate_4 replicate_16)

lemma run_Cons_Inr:
  "run w (opn # ops) = Inr w2 \<Longrightarrow> \<exists>w1. apply_operation w opn = Inr w1 \<and> run w1 ops = Inr w2"
  by (cases "apply_operation w opn") (simp_all add: bind_r_def)

text \<open>
  Claim C8, as amended. In the queue left by three appends to a new queue (not random),
  with repeat set the order after order 2 is 0, the start. With consume and repeat set
  the order after order 0 is 1, the following one, since there is one; it is -1, the
  end, in the queue left by the first append alone, where order 0 is the last.
\<close>

theorem GetNextOrder_three_items:
  assumes "run (cur0, queue_init n rs) [OpAppend a pa] = Inr (cur1, q1)"
    and "run (cur1, q1) [OpAppend b pb, OpAppend c pc] = Inr (cur3, q3)"
  shows "GetNextOrder (q3\<lparr>repeat := True\<rparr>) 2 = Inr 0
       \<and> GetNextOrder (q3\<lparr>repeat := True, consume := True\<rparr>) 0 = Inr 1
       \<and> GetNextOrder (q1\<lparr>repeat := True, consume := True\<rparr>) 0 = Inr (- 1)"
proof -
  from run_Cons_Inr [OF assms(1)] have a1: "Append (queue_init n rs) cur0 a pa = Inr (cur1, q1)"
    by simp
  from run_Cons_Inr [OF assms(2)] obtain w2
    where w2: "apply_operation (cur1, q1) (OpAppend b pb) = Inr w2"
      and r2: "run w2 [OpAppend c pc] = Inr (cur3, q3)"
    by blast
  obtain cur2 q2 where w2_eq: "w2 = (cur2, q2)"
    by (cases w2)
  from w2 w2_eq have a2: "Append q1 cur1 b pb = Inr (cur2, q2)"
    by simp
  from run_Cons_Inr [OF r2] w2_eq have a3: "Append q2 cur2 c pc = Inr (cur3, q3)"
    by simp
  have l1: "queue_length q1 = 1" "\<not> single q1" "\<not> consume q1"
    using Append_Inr(3) [OF a1] by (simp_all add: queue_init_def)
  have l2: "queue_length q2 = 2" "\<not> single q2" "\<not> consume q2"
    using Append_Inr(3) [OF a2] l1 by simp_all
  have l3: "queue_length q3 = 3" "\<not> single q3" "\<not> consume q3"
    using Append_Inr(3) [OF a3] l2 by simp_all
  show ?thesis
    using l1 l3 by (simp add: GetNextOrder_def unsigned_to_int_def)
qed

theorem GetNextOrder_three_items_witness:
  "run (G_MAXUINT, queue_init 4 []) [OpAppend ''A'' 0] = Inr (0, queue_A)
   \<and> run (0, queue_A) [OpAppend ''B'' 0, OpAppend ''C'' 0] = Inr (2, queue_ABC)
   \<and> GetNextOrder (queue_ABC\<lparr>repeat := True\<rparr>) 2 = Inr 0
   \<and> GetNextOrder (queue_ABC\<lparr>repeat := True, consume := True\<rparr>) 0 = Inr 1
   \<and> GetNextOrder (queue_A\<lparr>repeat := True, consume := True\<rparr>) 0 = Inr (- 1)"
  using GetNextOrder_three_items [OF run_Append_A run_Append_BC] run_Append_A run_Append_BC
  by simp

text \<open>
  The claim as it was stated fails on the queue of A, B and C: with consume and repeat
  set, the order after order 0 is 1 and not the end.
\<close>

theorem GetNextOrder_three_items_counterexample:
  "run (G_MAXUINT, queue_init 4 []) [OpAppend ''A'' 0, OpAppend ''B'' 0, OpAppend ''C'' 0]
     = Inr (2, queue_ABC)
   \<and> GetNextOrder (queue_ABC\<lparr>repeat := True, consume := True\<rparr>) 0 = Inr 1
   \<and> GetNextOrder (queue_ABC\<lparr>repeat := True, consume := True\<rparr>) 0 \<noteq> Inr (- 1)"
proof -
  have "run (G_MAXUINT, queue_init 4 []) [OpAppend ''A'' 0, OpAppend ''B'' 0, OpAppend ''C'' 0]
     = Inr (2, queue_ABC)"
    by (simp add: queue_init_def queue_ABC_def bind_r_def Append_def queue_generate_id.simps
        machine_defs IsFull_def song_dup_detached_def song_item_def replicate_4 replicate_16)
  moreover have "GetNextOrder (queue_ABC\<lparr>repeat := True, consume := True\<rparr>) 0 = Inr 1"
    by (simp add: GetNextOrder_def queue_ABC_def unsigned_to_int_def)
  ultimately show ?thesis
    by simp
qed

subsection \<open>The version counter at its ceiling: claim C5\<close>

lemma length_fold_update [simp]:
  "length (fold (\<lambda>i xs. xs[i := f i xs]) ns xs) = length xs"
  by (induction ns arbitrary: xs) simp_all

lemma nth_fold_update:
  "fold (\<lambda>i xs. xs[i := f (xs ! i)]) [a..<b] xs ! k =
     (if a \<le> k \<and> k < b \<and> k < length xs then f (xs ! k) else xs ! k)"
proof (induction b arbitrary: k)
  case 0
  show ?case by simp
next
  case (Suc b)
  let ?ys = "fold (\<lambda>i xs. xs[i := f (xs ! i)]) [a..<b] xs"
  show ?case
  proof (cases "a \<le> b")
    case False
    then show ?thesis by auto
  next
    case True
    then have step: "fold (\<lambda>i xs. xs[i := f (xs ! i)]) [a..<Suc b] xs = ?ys[b := f (?ys ! b)]"
      by simp
    show ?thesis
    proof (cases "k = b")
      case False
      with True Suc [of k] show ?thesis
        by (simp only: step) (auto simp: less_Suc_eq)
    next
      case kb: True
      show ?thesis
      proof (cases "b < length xs")
        case True
        with kb \<open>a \<le> b\<close> Suc [of b] show ?thesis
          by (simp only: step) simp
      next
        case False
        then have "?ys[b := f (?ys ! b)] = ?ys"
          by (simp add: list_update_beyond)
        with kb False Suc [of b] show ?thesis
          by (simp only: step) simp
      qed
    qed
  qed
qed

lemma IncrementVersion_reset:
  assumes "version q + 1 \<ge> (2 ^ 31 - 1 :: 32 word)" and "queue_length q \<le> length (items q)"
  shows "version (IncrementVersion q) = 1"
    and "\<forall>i < queue_length q. item_version (items (IncrementVersion q) ! i) = 0"
  using assms by (simp_all add: IncrementVersion_def Let_def nth_fold_update)

text \<open>
  Claim C5, as amended. With the version counter at \<open>2 ^ 31 - 2\<close>, IncrementVersion,
  ModifyAll and ModifyAtOrder leave the counter at 1 and the stamp of every live item at
  0. For a counter below \<open>2 ^ 31 - 1\<close> the counter is reset to 1 exactly when the
  incremented counter would reach \<open>2 ^ 31 - 1\<close> (not only when it would exceed it),
  and is incremented otherwise; it never holds \<open>2 ^ 31 - 1\<close>.
\<close>

theorem version_wrap_around:
  assumes "queue_length q \<le> length (items q)"
  shows "(version q = 2 ^ 31 - 2 \<longrightarrow>
            version (IncrementVersion q) = 1
            \<and> (\<forall>i < queue_length q. item_version (items (IncrementVersion q) ! i) = 0)
            \<and> version (ModifyAll q) = 1
            \<and> (\<forall>i < queue_length q. item_version (items (ModifyAll q) ! i) = 0)
            \<and> (\<forall>ord < queue_length q. \<exists>q'. ModifyAtOrder q ord = Inr q'
                  \<and> version q' = 1
                  \<and> (\<forall>i < queue_length q. item_version (items q' ! i) = 0)))
       \<and> (unat (version q) < 2 ^ 31 - 1 \<longrightarrow>
            version (IncrementVersion q) =
              (if unat (version q) + 1 \<ge> 2 ^ 31 - 1 then 1 else version q + 1)
            \<and> unat (version (IncrementVersion q)) < 2 ^ 31 - 1)"
proof -
  have wrap: "version q + 1 \<ge> (2 ^ 31 - 1 :: 32 word)" if "version q = 2 ^ 31 - 2"
    using that by simp
  have part1: "version (IncrementVersion q') = 1
      \<and> (\<forall>i < queue_length q. item_version (items (IncrementVersion q') ! i) = 0)"
    if "version q = 2 ^ 31 - 2" "version q' = version q" "queue_length q' = queue_length q"
       "length (items q') = length (items q)" for q'
    using IncrementVersion_reset [of q'] that assms by simp
  have m1: "version q = 2 ^ 31 - 2 \<Longrightarrow> version (IncrementVersion q) = 1
      \<and> (\<forall>i < queue_length q. item_version (items (IncrementVersion q) ! i) = 0)"
    using part1 [of q] by simp
  have m2: "version q = 2 ^ 31 - 2 \<Longrightarrow> version (ModifyAll q) = 1
      \<and> (\<forall>i < queue_length q. item_version (items (ModifyAll q) ! i) = 0)"
    unfolding ModifyAll_def by (rule part1) simp_all
  have m3: "version q = 2 ^ 31 - 2 \<Longrightarrow> ord < queue_length q \<Longrightarrow>
       \<exists>q'. ModifyAtOrder q ord = Inr q' \<and> version q' = 1
          \<and> (\<forall>i < queue_length q. item_version (items q' ! i) = 0)" for ord
    unfolding ModifyAtOrder_def Let_def by (simp, rule part1) simp_all
  have le: "(a :: 32 word) \<le> b \<longleftrightarrow> unat a \<le> unat b" for a b
    by (rule word_le_nat_alt)
  have m4: "version (IncrementVersion q) =
              (if unat (version q) + 1 \<ge> 2 ^ 31 - 1 then 1 else version q + 1)
            \<and> unat (version (IncrementVersion q)) < 2 ^ 31 - 1"
    if small: "unat (version q) < 2 ^ 31 - 1"
  proof -
    have u: "unat (version q + 1) = unat (version q) + 1"
      using small by (simp add: unat_word_ariths)
    show ?thesis
      using small u by (simp add: IncrementVersion_def Let_def le)
  qed
  from m1 m2 m3 m4 show ?thesis
    by blast
qed

theorem version_wrap_around_witness:
  "queue_length queue_wrap \<le> length (items queue_wrap)
   \<and> version queue_wrap = 2 ^ 31 - 2
   \<and> unat (version queue_wrap) < 2 ^ 31 - 1
   \<and> version (IncrementVersion queue_wrap) = 1
   \<and> item_version (items (IncrementVersion queue_wrap) ! 0) = 0
   \<and> item_version (items (IncrementVersion queue_wrap) ! 1) = 0
   \<and> item_version (items (IncrementVersion queue_wrap) ! 2) = 0
   \<and> version (ModifyAll queue_wrap) = 1"
  using version_wrap_around [of queue_wrap]
  by (simp add: queue_wrap_def queue_ABC_def)

text \<open>
  The claim as it was stated fails at the counter \<open>2 ^ 31 - 2\<close>: the counter is reset
  to 1 and the stamps to 0, though the incremented counter, \<open>2 ^ 31 - 1\<close>, would not
  exceed \<open>2 ^ 31 - 1\<close>.
\<close>

theorem version_wrap_around_counterexample:
  "version (IncrementVersion queue_wrap) = 1
   \<and> item_version (items (IncrementVersion queue_wrap) ! 0) = 0
   \<and> \<not> (unat (version queue_wrap) + 1 > 2 ^ 31 - 1)"
  by (simp add: queue_wrap_def queue_ABC_def IncrementVersion_def Let_def upt_conv_Cons
      song_item_def)

subsection \<open>Append at capacity: claim C9\<close>

text \<open>
  The identifier generator returns whenever the IdMap has a free slot, and the
  invariants leave one: the live items are fewer than the slots.
\<close>

lemma queue_generate_id_step:
  "queue_generate_id q cur =
     (let cur2 = next_cursor (umul (max_length q) QUEUE_HASH_MULT) cur
      in if id_to_position q ! cur2 \<noteq> - 1 then queue_generate_id q cur2 else Some cur2)"
  by (subst queue_generate_id.simps) (simp add: Let_def next_cursor_def)

lemma next_cursor_less: "0 < N \<Longrightarrow> next_cursor N cur < N"
  by (simp add: next_cursor_def)

lemma next_cursor_Suc: "c + 1 < N \<Longrightarrow> N < 2 ^ 32 \<Longrightarrow> next_cursor N c = c + 1"
  by (simp add: next_cursor_def uadd_def)

lemma next_cursor_cases: "c < N \<Longrightarrow> N < 2 ^ 32 \<Longrightarrow> next_cursor N c = 0 \<or> next_cursor N c = c + 1"
  by (simp add: next_cursor_def uadd_def)

lemma queue_generate_id_upto:
  assumes N: "umul (max_length q) QUEUE_HASH_MULT = N" "N < 2 ^ 32"
    and free: "f < N" "id_to_position q ! f = - 1"
    and nxt: "next_cursor N cur \<le> f"
  shows "\<exists>ident. queue_generate_id q cur = Some ident \<and> ident < N
           \<and> id_to_position q ! ident = - 1"
  using nxt
proof (induction "f - next_cursor N cur" arbitrary: cur rule: less_induct)
  case less
  define c where "c = next_cursor N cur"
  have unfold: "queue_generate_id q cur =
      (if id_to_position q ! c \<noteq> - 1 then queue_generate_id q c else Some c)"
    by (subst queue_generate_id_step) (simp add: N Let_def c_def)
  from less.prems have cf: "c \<le> f"
    by (simp add: c_def)
  show ?case
  proof (cases "id_to_position q ! c = - 1")
    case True
    with unfold cf free show ?thesis
      by auto
  next
    case False
    with free cf have lt: "c < f"
      by (metis le_neq_implies_less)
    with free N have c2: "next_cursor N c = c + 1"
      by (intro next_cursor_Suc) simp_all
    have "\<exists>ident. queue_generate_id q c = Some ident \<and> ident < N
           \<and> id_to_position q ! ident = - 1"
    proof (rule less.hyps)
      show "f - next_cursor N c < f - next_cursor N cur"
        using lt c2 by (simp add: c_def)
      show "next_cursor N c \<le> f"
        using lt c2 by simp
    qed
    with unfold False show ?thesis
      by simp
  qed
qed

lemma queue_generate_id_free:
  assumes N: "umul (max_length q) QUEUE_HASH_MULT = N" "N < 2 ^ 32"
    and free: "f < N" "id_to_position q ! f = - 1"
  shows "\<exists>ident. queue_generate_id q cur = Some ident \<and> ident < N
           \<and> id_to_position q ! ident = - 1"
proof (induction "N - next_cursor N cur" arbitrary: cur rule: less_induct)
  case less
  define c where "c = next_cursor N cur"
  have unfold: "queue_generate_id q cur =
      (if id_to_position q ! c \<noteq> - 1 then queue_generate_id q c else Some c)"
    by (subst queue_generate_id_step) (simp add: N Let_def c_def)
  have cN: "c < N"
    using free next_cursor_less [of N cur] by (simp add: c_def)
  show ?case
  proof (cases "id_to_position q ! c = - 1")
    case True
    with unfold cN show ?thesis
      by auto
  next
    case False
    have "\<exists>ident. queue_generate_id q c = Some ident \<and> ident < N
           \<and> id_to_position q ! ident = - 1"
    proof (cases "next_cursor N c \<le> f")
      case True
      then show ?thesis
        by (rule queue_generate_id_upto [OF N free])
    next
      case far: False
      with next_cursor_cases [OF cN N(2)] have "next_cursor N c = c + 1"
        by auto
      moreover have "next_cursor N c < N"
        using free next_cursor_less [of N c] by simp
      ultimately have "N - next_cursor N c < N - next_cursor N cur"
        by (simp add: c_def)
      then show ?thesis
        by (rule less.hyps)
    qed
    with unfold False show ?thesis
      by simp
  qed
qed

lemma free_slot_exists:
  assumes "queue_inv q"
  shows "\<exists>f < length (id_to_position q). id_to_position q ! f = - 1"
proof (rule ccontr)
  assume "\<not> ?thesis"
  then have used: "\<forall>i < length (id_to_position q). id_to_position q ! i \<noteq> - 1"
    by auto
  let ?N = "length (id_to_position q)"
  let ?g = "\<lambda>i. nat (id_to_position q ! i)"
  from assms have slot: "\<forall>i < ?N. id_to_position q ! i = - 1 \<or>
        (0 \<le> id_to_position q ! i \<and> ?g i < queue_length q \<and> item_id (items q ! ?g i) = i)"
    by (simp add: queue_inv_def id_map_ok_def)
  with used have live: "\<forall>i < ?N. ?g i < queue_length q \<and> item_id (items q ! ?g i) = i"
    by blast
  have "inj_on ?g {..<?N}"
  proof (rule inj_onI)
    fix i j assume "i \<in> {..<?N}" "j \<in> {..<?N}" "?g i = ?g j"
    with live show "i = j"
      by (metis lessThan_iff)
  qed
  moreover have "?g ` {..<?N} \<subseteq> {..<queue_length q}"
    using live by auto
  ultimately have "card {..<?N} \<le> card {..<queue_length q}"
    by (intro card_inj_on_le) simp_all
  then have "?N \<le> queue_length q"
    by simp
  moreover from assms have "queue_length q < ?N"
    by (simp add: queue_inv_def queue_alloc_def QUEUE_HASH_MULT_def)
  ultimately show False
    by simp
qed

lemma queue_generate_id_returns:
  assumes "queue_inv q"
  shows "\<exists>ident. queue_generate_id q cur = Some ident \<and> ident < length (id_to_position q)
           \<and> id_to_position q ! ident = - 1"
proof -
  from assms have N: "umul (max_length q) QUEUE_HASH_MULT = length (id_to_position q)"
      "length (id_to_position q) < 2 ^ 32"
    by (simp_all add: queue_inv_def queue_alloc_def umul_def)
  from free_slot_exists [OF assms] obtain f
    where "f < length (id_to_position q)" "id_to_position q ! f = - 1"
    by blast
  then show ?thesis
    by (rule queue_generate_id_free [OF N])
qed

text \<open>
  Claim C9, as amended. Append on a queue whose length is its capacity does not return:
  there is no QueueFull result, the capacity check is the assertion
  \<^verbatim>\<open>assert(!IsFull())\<close>, made once the identifier generator has run, and it aborts.
  Below the capacity Append returns the identifier and the queue with the item at the
  end.
\<close>

theorem Append_on_full_queue:
  assumes "queue_inv q"
  shows "(queue_length q = max_length q \<longrightarrow> Append q cur s prio = Inl AssertionFailed)
       \<and> (queue_length q < max_length q \<longrightarrow>
            (\<exists>ident q'. Append q cur s prio = Inr (ident, q')
               \<and> queue_length q' = queue_length q + 1
               \<and> items q' ! queue_length q =
                   \<lparr>item_song = s, item_id = ident, item_version = version q,
                    item_priority = prio\<rparr>))"
proof -
  from queue_generate_id_returns [OF assms] obtain ident
    where "queue_generate_id q cur = Some ident"
    by blast
  moreover from assms have "queue_length q < max_length q \<Longrightarrow> queue_length q < length (items q)"
    by (simp add: queue_inv_def queue_alloc_def)
  ultimately show ?thesis
    by (simp add: Append_def IsFull_def Let_def song_dup_detached_def)
qed

theorem Append_on_full_queue_witness:
  "queue_inv queue_ABCDE \<and> queue_length queue_ABCDE = max_length queue_ABCDE
   \<and> Append queue_ABCDE 4 ''F'' 0 = Inl AssertionFailed"
  using Append_on_full_queue [OF queue_ABCDE_inv, of 4 "''F''" 0] queue_ABCDE_inv
  by (simp add: queue_ABCDE_def)

text \<open>
  The claim as it was stated fails on the full queue of A to E: the identifier generator
  moves the cursor from 4 to 5, and the call ends in the failed assertion, not in a
  recoverable result with the queue intact.
\<close>

theorem Append_on_full_queue_counterexample:
  "queue_length queue_ABCDE = max_length queue_ABCDE
   \<and> queue_generate_id queue_ABCDE 4 = Some 5
   \<and> Append queue_ABCDE 4 ''F'' 0 = Inl AssertionFailed"
  by (simp add: queue_ABCDE_def Append_def IsFull_def queue_generate_id.simps machine_defs)

subsection \<open>Swapping two positions: claim C6\<close>

lemma live_id:
  assumes "queue_inv q" and "p < queue_length q"
  shows "item_id (items q ! p) < length (id_to_position q)"
    and "id_to_position q ! item_id (items q ! p) = int p"
    and "p < length (items q)"
    and "unsigned_to_int p = int p"
proof -
  from assms have a: "queue_alloc q" and m: "id_map_ok q"
    by (simp_all add: queue_inv_def)
  from m assms(2) show "item_id (items q ! p) < length (id_to_position q)"
    and "id_to_position q ! item_id (items q ! p) = int p"
    by (simp_all add: id_map_ok_def)
  from a assms(2) show "p < length (items q)"
    by (simp add: queue_alloc_def)
  from a assms(2) position_small [of q p] show "unsigned_to_int p = int p"
    by (simp add: unsigned_to_int_small)
qed

lemma live_id_inj:
  assumes "queue_inv q" and "p1 < queue_length q" and "p2 < queue_length q"
    and "item_id (items q ! p1) = item_id (items q ! p2)"
  shows "p1 = p2"
proof -
  have "int p1 = id_to_position q ! item_id (items q ! p1)"
    using live_id(2) [OF assms(1,2)] by simp
  also have "\<dots> = id_to_position q ! item_id (items q ! p2)"
    by (simp only: assms(4))
  also have "\<dots> = int p2"
    using live_id(2) [OF assms(1,3)] by simp
  finally show ?thesis
    by simp
qed

text \<open>
  Claim C6, as amended. In a queue that satisfies the invariants, SwapPositions at two
  valid positions exchanges the two items, binds the identifier of the first to the
  second position and that of the second to the first, and stamps both items with the
  version counter. It leaves every other item, the order array, the length and the flags
  as they were, and it does not increment the version counter: after the call the
  counter equals the two new stamps.
\<close>

theorem SwapPositions_effect:
  assumes "queue_inv q" and "position1 < queue_length q" and "position2 < queue_length q"
  shows "items (SwapPositions q position1 position2) ! position1 =
           (items q ! position2)\<lparr>item_version := version q\<rparr>
       \<and> items (SwapPositions q position1 position2) ! position2 =
           (items q ! position1)\<lparr>item_version := version q\<rparr>
       \<and> (\<forall>p. p \<noteq> position1 \<and> p \<noteq> position2 \<longrightarrow>
             items (SwapPositions q position1 position2) ! p = items q ! p)
       \<and> id_to_position (SwapPositions q position1 position2) ! item_id (items q ! position1)
           = int position2
       \<and> id_to_position (SwapPositions q position1 position2) ! item_id (items q ! position2)
           = int position1
       \<and> version (SwapPositions q position1 position2) = version q
       \<and> SwapPositions q position1 position2 =
           q\<lparr>items := items (SwapPositions q position1 position2),
             id_to_position := id_to_position (SwapPositions q position1 position2)\<rparr>"
proof -
  note l1 = live_id [OF assms(1,2)] and l2 = live_id [OF assms(1,3)]
  have ids: "item_id (items q ! position1) = item_id (items q ! position2) \<Longrightarrow> position1 = position2"
    by (rule live_id_inj [OF assms])
  have i1: "items (SwapPositions q position1 position2) ! position1 =
           (items q ! position2)\<lparr>item_version := version q\<rparr>"
    using l1 l2 by (simp add: SwapPositions_def Let_def nth_list_update)
  have i2: "items (SwapPositions q position1 position2) ! position2 =
           (items q ! position1)\<lparr>item_version := version q\<rparr>"
    using l1 l2 by (simp add: SwapPositions_def Let_def nth_list_update)
  have i3: "items (SwapPositions q position1 position2) ! p = items q ! p"
    if "p \<noteq> position1 \<and> p \<noteq> position2" for p
    using that by (simp add: SwapPositions_def Let_def)
  have m1: "id_to_position (SwapPositions q position1 position2) ! item_id (items q ! position1)
           = int position2"
  proof (cases "position1 = position2")
    case True
    with l1 show ?thesis
      by (simp add: SwapPositions_def Let_def)
  next
    case False
    with ids have "item_id (items q ! position1) \<noteq> item_id (items q ! position2)"
      by blast
    with l1 l2 show ?thesis
      by (simp add: SwapPositions_def Let_def)
  qed
  have m2: "id_to_position (SwapPositions q position1 position2) ! item_id (items q ! position2)
           = int position1"
    using l1 l2 by (simp add: SwapPositions_def Let_def)
  have v: "version (SwapPositions q position1 position2) = version q"
    by (simp add: SwapPositions_def Let_def)
  have r: "SwapPositions q position1 position2 =
           q\<lparr>items := items (SwapPositions q position1 position2),
             id_to_position := id_to_position (SwapPositions q position1 position2)\<rparr>"
    by (simp add: SwapPositions_def Let_def)
  from i1 i2 i3 m1 m2 v r show ?thesis
    by blast
qed

theorem SwapPositions_effect_witness:
  "queue_inv queue_ABC \<and> (0 :: nat) < queue_length queue_ABC \<and> (1 :: nat) < queue_length queue_ABC
   \<and> items (SwapPositions queue_ABC 0 1) ! 0 = song_item ''B'' 1 0
   \<and> items (SwapPositions queue_ABC 0 1) ! 1 = song_item ''A'' 0 0
   \<and> id_to_position (SwapPositions queue_ABC 0 1) ! 0 = 1
   \<and> id_to_position (SwapPositions queue_ABC 0 1) ! 1 = 0
   \<and> version (SwapPositions queue_ABC 0 1) = 1"
proof -
  have l: "(0 :: nat) < queue_length queue_ABC" "(1 :: nat) < queue_length queue_ABC"
    by (simp_all add: queue_ABC_def)
  show ?thesis
    using SwapPositions_effect [OF queue_ABC_inv l] queue_ABC_inv l
    by (simp add: queue_ABC_def song_item_def)
qed

text \<open>
  The claim as it was stated fails on the queue of A, B and C: after the swap of
  positions 0 and 1 the counter is 1, as before, and not above the new stamps.
\<close>

theorem SwapPositions_effect_counterexample:
  "item_version (items (SwapPositions queue_ABC 0 1) ! 0) = 1
   \<and> item_version (items (SwapPositions queue_ABC 0 1) ! 1) = 1
   \<and> version (SwapPositions queue_ABC 0 1) = 1
   \<and> \<not> item_version (items (SwapPositions queue_ABC 0 1) ! 0) < version (SwapPositions queue_ABC 0 1)"
  by (simp add: SwapPositions_def Let_def queue_ABC_def song_item_def unsigned_to_int_def)

subsection \<open>Moving a block of two in a queue of five: claim C4\<close>

lemma list_update_twice:
  "xs[t := g (xs[t := a] ! t)] = xs[t := g a]"
  by (cases "t < length xs") (simp_all add: list_update_beyond)

lemma queue_move_song_to_eq:
  "queue_move_song_to q from to =
     q\<lparr>items := (items q)[to := (items q ! from)\<lparr>item_version := version q\<rparr>],
       id_to_position := (id_to_position q)[item_id (items q ! from) := unsigned_to_int to]\<rparr>"
  by (simp add: queue_move_song_to_def Let_def list_update_twice)

text \<open>
  Claim C4. In a queue of five items A to E that satisfies the invariants, in any mode,
  MoveRange of the block from 1 to 3 (B and C) to 3 leaves the positions A, D, E, B, C,
  the moved items stamped with the version counter; the IdMap sends the identifier of B
  to 3 and that of C to 4 (and those of D and E to 1 and 2). A, outside the source and
  the destination, keeps its position and its stamp. The destination 3 is a position of
  the queue of three that is left when the block is taken out: it is at most
  \<open>5 - (3 - 1)\<close>.
\<close>

theorem MoveRange_five_items:
  assumes "queue_inv q" and "queue_length q = 5"
  shows "items (MoveRange q 1 3 3) ! 0 = items q ! 0
       \<and> items (MoveRange q 1 3 3) ! 1 = (items q ! 3)\<lparr>item_version := version q\<rparr>
       \<and> items (MoveRange q 1 3 3) ! 2 = (items q ! 4)\<lparr>item_version := version q\<rparr>
       \<and> items (MoveRange q 1 3 3) ! 3 = (items q ! 1)\<lparr>item_version := version q\<rparr>
       \<and> items (MoveRange q 1 3 3) ! 4 = (items q ! 2)\<lparr>item_version := version q\<rparr>
       \<and> id_to_position (MoveRange q 1 3 3) ! item_id (items q ! 0) = 0
       \<and> id_to_position (MoveRange q 1 3 3) ! item_id (items q ! 1) = 3
       \<and> id_to_position (MoveRange q 1 3 3) ! item_id (items q ! 2) = 4
       \<and> id_to_position (MoveRange q 1 3 3) ! item_id (items q ! 3) = 1
       \<and> id_to_position (MoveRange q 1 3 3) ! item_id (items q ! 4) = 2
       \<and> queue_length (MoveRange q 1 3 3) = 5
       \<and> (3 :: nat) \<le> queue_length q - (3 - 1)"
proof -
  define A B C D E where "A = items q ! 0" and "B = items q ! 1" and "C = items q ! 2"
    and "D = items q ! 3" and "E = items q ! 4"
  define v where "v = version q"
  have p: "(0::nat) < queue_length q" "(1::nat) < queue_length q" "(2::nat) < queue_length q"
    "(3::nat) < queue_length q" "(4::nat) < queue_length q"
    using assms(2) by simp_all
  have len: "length (items q) \<ge> 5"
    using live_id(3) [OF assms(1) p(5)] by simp
  have bound: "item_id A < length (id_to_position q)" "item_id B < length (id_to_position q)"
    "item_id C < length (id_to_position q)" "item_id D < length (id_to_position q)"
    "item_id E < length (id_to_position q)"
    using p [THEN live_id(1) [OF assms(1)]] by (simp_all add: A_def B_def C_def D_def E_def)
  have bindA: "id_to_position q ! item_id A = 0"
    using live_id(2) [OF assms(1) p(1)] by (simp add: A_def)
  have neq: "item_id (items q ! a) \<noteq> item_id (items q ! b)"
    if "a < queue_length q" "b < queue_length q" "a \<noteq> b" for a b
    using live_id_inj [OF assms(1), of a b] that by blast
  have distinct_ids: "item_id A \<noteq> item_id B" "item_id A \<noteq> item_id C"
    "item_id A \<noteq> item_id D" "item_id A \<noteq> item_id E" "item_id B \<noteq> item_id C"
    "item_id B \<noteq> item_id D" "item_id B \<noteq> item_id E" "item_id C \<noteq> item_id D"
    "item_id C \<noteq> item_id E" "item_id D \<noteq> item_id E"
    unfolding A_def B_def C_def D_def E_def using p by (simp_all add: neq)
  define qa where "qa = queue_move_song_to q 3 1"
  define qb where "qb = queue_move_song_to qa 4 2"
  have qa: "qa = q\<lparr>items := (items q)[1 := D\<lparr>item_version := v\<rparr>],
                    id_to_position := (id_to_position q)[item_id D := 1]\<rparr>"
    by (simp add: qa_def queue_move_song_to_eq D_def v_def unsigned_to_int_def)
  have qb: "qb = q\<lparr>items := (items q)[1 := D\<lparr>item_version := v\<rparr>, 2 := E\<lparr>item_version := v\<rparr>],
                    id_to_position := (id_to_position q)[item_id D := 1, item_id E := 2]\<rparr>"
    by (simp add: qb_def queue_move_song_to_eq qa E_def v_def unsigned_to_int_def)
  have loop1: "fold (\<lambda>i q. queue_move_song_to q i (1 + i - 3)) [3..<3 + 3 - 1] q = qb"
    by (simp add: upt_conv_Cons qa_def qb_def)
  have down: "MoveRange_down qb 1 3 3 (usub 1 1) = qb"
    by (subst MoveRange_down.simps) (simp add: usub_def)
  have tmp: "map (\<lambda>i. items q ! i) [1..<3] = [B, C]"
    by (simp add: upt_conv_Cons B_def C_def numeral_2_eq_2)
  define its where "its = (items q)[1 := D\<lparr>item_version := v\<rparr>, 2 := E\<lparr>item_version := v\<rparr>,
      3 := B\<lparr>item_version := v\<rparr>, 4 := C\<lparr>item_version := v\<rparr>]"
  define idp where "idp = (id_to_position q)[item_id D := 1, item_id E := 2, item_id B := 3,
      item_id C := 4]"
  have loop3: "fold (\<lambda>i q'.
                   q'\<lparr>id_to_position := (id_to_position q')
                        [item_id ([B, C] ! (i - 1)) := unsigned_to_int (3 + i - 1)],
                     items := (items q')
                        [3 + i - 1 := ([B, C] ! (i - 1))\<lparr>item_version := version q'\<rparr>]\<rparr>)
                 [1..<3] qb = q\<lparr>items := its, id_to_position := idp\<rparr>"
  proof -
    have conv: "unsigned_to_int 3 = 3" "unsigned_to_int 4 = 4"
      by (simp_all add: unsigned_to_int_def)
    have four: "(4 :: nat) = Suc (Suc (Suc (Suc 0)))"
      by simp
    show ?thesis
      by (simp add: upt_conv_Cons qb its_def idp_def v_def unsigned_to_int_small
          numeral_3_eq_3 four)
  qed
  have result: "items (MoveRange q 1 3 3) = its \<and> id_to_position (MoveRange q 1 3 3) = idp
      \<and> queue_length (MoveRange q 1 3 3) = queue_length q"
    unfolding MoveRange_def Let_def tmp loop1 down loop3 by simp
  have "its ! 0 = A" "its ! 1 = D\<lparr>item_version := v\<rparr>" "its ! 2 = E\<lparr>item_version := v\<rparr>"
    "its ! 3 = B\<lparr>item_version := v\<rparr>" "its ! 4 = C\<lparr>item_version := v\<rparr>"
    using len by (simp_all add: its_def A_def)
  moreover have "idp ! item_id A = 0" "idp ! item_id B = 3" "idp ! item_id C = 4"
    "idp ! item_id D = 1" "idp ! item_id E = 2"
    using bound distinct_ids bindA by (simp_all add: idp_def)
  ultimately show ?thesis
    using result assms(2) by (simp add: A_def B_def C_def D_def E_def v_def)
qed

theorem MoveRange_five_items_witness:
  "queue_inv queue_ABCDE \<and> queue_length queue_ABCDE = 5
   \<and> item_song (items (MoveRange queue_ABCDE 1 3 3) ! 0) = ''A''
   \<and> item_song (items (MoveRange queue_ABCDE 1 3 3) ! 1) = ''D''
   \<and> item_song (items (MoveRange queue_ABCDE 1 3 3) ! 2) = ''E''
   \<and> item_song (items (MoveRange queue_ABCDE 1 3 3) ! 3) = ''B''
   \<and> item_song (items (MoveRange queue_ABCDE 1 3 3) ! 4) = ''C''
   \<and> id_to_position (MoveRange queue_ABCDE 1 3 3) ! 1 = 3
   \<and> id_to_position (MoveRange queue_ABCDE 1 3 3) ! 2 = 4"
proof -
  have l: "queue_length queue_ABCDE = 5"
    by (simp add: queue_ABCDE_def)
  have its: "items queue_ABCDE ! 0 = song_item ''A'' 0 0" "items queue_ABCDE ! Suc 0 = song_item ''B'' 1 0"
    "items queue_ABCDE ! 2 = song_item ''C'' 2 0" "items queue_ABCDE ! 3 = song_item ''D'' 3 0"
    "items queue_ABCDE ! 4 = song_item ''E'' 4 0"
    by (simp_all add: queue_ABCDE_def)
  show ?thesis
    using MoveRange_five_items [OF queue_ABCDE_inv l] queue_ABCDE_inv l
    by (simp add: its song_item_def)
qed

lemma fold_preserves:
  assumes "\<And>i s. proj (f i s) = proj s"
  shows "proj (fold f ns s) = proj s"
  using assms by (induction ns arbitrary: s) simp_all

lemma mset_take_eq:
  assumes "mset r = mset xs" and "drop n r = drop n xs"
  shows "mset (take n r) = mset (take n xs)"
proof -
  have "mset (take n r) + mset (drop n r) = mset (take n xs) + mset (drop n xs)"
    using assms(1) by (simp flip: mset_append)
  with assms(2) show ?thesis
    by simp
qed

lemma shift_left_nth:
  assumes "b < length xs"
  shows "fold (\<lambda>i xs. xs[i := h (xs ! (i + 1))]) [a..<b] xs ! k =
           (if a \<le> k \<and> k < b then h (xs ! (k + 1)) else xs ! k)"
  using assms
proof (induction b arbitrary: k)
  case 0
  show ?case by simp
next
  case (Suc b)
  let ?ys = "fold (\<lambda>i xs. xs[i := h (xs ! (i + 1))]) [a..<b] xs"
  from Suc.prems have b: "b < length xs"
    by simp
  show ?case
  proof (cases "a \<le> b")
    case False
    then show ?thesis by auto
  next
    case True
    then have step: "fold (\<lambda>i xs. xs[i := h (xs ! (i + 1))]) [a..<Suc b] xs
        = ?ys[b := h (?ys ! (b + 1))]"
      by simp
    have next_one: "?ys ! (b + 1) = xs ! (b + 1)"
      using Suc.IH [OF b, of "b + 1"] by simp
    show ?thesis
    proof (cases "k = b")
      case True
      with b \<open>a \<le> b\<close> next_one show ?thesis
        by (simp only: step) simp
    next
      case False
      with Suc.IH [OF b, of k] show ?thesis
        by (simp only: step) (auto simp: less_Suc_eq)
    qed
  qed
qed

lemma shift_right_nth:
  "fold (\<lambda>i xs. xs[i := h (xs ! (i - 1))]) (rev [a + 1..<b + 1]) xs ! k =
     (if a < k \<and> k \<le> b \<and> k < length xs then h (xs ! (k - 1)) else xs ! k)"
proof (induction b arbitrary: xs k)
  case 0
  show ?case by auto
next
  case (Suc b)
  show ?case
  proof (cases "a \<le> b")
    case False
    then show ?thesis by auto
  next
    case True
    let ?xs' = "xs[Suc b := h (xs ! b)]"
    from True have step: "fold (\<lambda>i xs. xs[i := h (xs ! (i - 1))]) (rev [a + 1..<Suc b + 1]) xs
        = fold (\<lambda>i xs. xs[i := h (xs ! (i - 1))]) (rev [a + 1..<b + 1]) ?xs'"
      by simp
    show ?thesis
      unfolding step Suc.IH using True
      by (cases "Suc b < length xs") (auto simp: nth_list_update less_Suc_eq_le list_update_beyond)
  qed
qed


lemma permutation_iff_bij:
  assumes "n \<le> length xs"
  shows "mset (take n xs) = mset [0..<n] \<longleftrightarrow> bij_betw (\<lambda>k. xs ! k) {..<n} {..<n}"
proof -
  have as_map: "take n xs = map (\<lambda>k. xs ! k) [0..<n]"
    using assms by (simp add: list_eq_iff_nth_eq)
  show ?thesis
  proof
    assume m: "mset (take n xs) = mset [0..<n]"
    then have "set (take n xs) = set [0..<n]"
      by (rule mset_eq_setD)
    then have img: "(\<lambda>k. xs ! k) ` {..<n} = {..<n}"
      by (simp add: as_map atLeast0LessThan)
    from m have "distinct (take n xs)"
      by (metis distinct_upt mset_eq_imp_distinct_iff)
    then have "inj_on (\<lambda>k. xs ! k) {..<n}"
      by (simp add: as_map distinct_map atLeast0LessThan)
    with img show "bij_betw (\<lambda>k. xs ! k) {..<n} {..<n}"
      by (simp add: bij_betw_def)
  next
    assume b: "bij_betw (\<lambda>k. xs ! k) {..<n} {..<n}"
    then have "inj_on (\<lambda>k. xs ! k) {0..<n}" and "(\<lambda>k. xs ! k) ` {0..<n} = {0..<n}"
      by (simp_all add: bij_betw_def atLeast0LessThan)
    then have "image_mset (\<lambda>k. xs ! k) (mset_set {0..<n}) = mset_set {0..<n}"
      by (simp add: image_mset_mset_set)
    then show "mset (take n xs) = mset [0..<n]"
      by (simp add: as_map)
  qed
qed

lemma order_is_permutation_iff:
  assumes "queue_alloc q"
  shows "order_is_permutation q \<longleftrightarrow>
           bij_betw (\<lambda>k. order q ! k) {..<queue_length q} {..<queue_length q}"
  unfolding order_is_permutation_def
  using assms by (intro permutation_iff_bij) (simp add: queue_alloc_def)

lemma bij_betw_reindex:
  assumes "bij_betw g B C" and "bij_betw p A B" and "\<And>k. k \<in> A \<Longrightarrow> r k = g (p k)"
  shows "bij_betw r A C"
proof -
  have "bij_betw (g \<circ> p) A C"
    using assms(2,1) by (rule bij_betw_trans)
  moreover have "\<And>k. k \<in> A \<Longrightarrow> (g \<circ> p) k = r k"
    using assms(3) by simp
  ultimately show ?thesis
    by (metis bij_betw_cong)
qed

text \<open>The index maps of the loops over the order array.\<close>

lemma bij_swap:
  assumes "i < n" and "j < n"
  shows "bij_betw (\<lambda>k. if k = i then j else if k = j then i else k) {..<n} {..<(n :: nat)}"
  by (rule bij_betw_byWitness [where f' = "\<lambda>k. if k = i then j else if k = j then i else k"])
    (use assms in auto)

lemma bij_rotate_left:
  assumes "from \<le> to" and "to < n"
  shows "bij_betw (\<lambda>k. if from \<le> k \<and> k < to then k + 1 else if k = to then from else k)
           {..<n} {..<(n :: nat)}"
  by (rule bij_betw_byWitness
        [where f' = "\<lambda>k. if from < k \<and> k \<le> to then k - 1 else if k = from then to else k"])
    (use assms in auto)

lemma bij_rotate_right:
  assumes "to \<le> from" and "from < n"
  shows "bij_betw (\<lambda>k. if k = to then from else if to < k \<and> k \<le> from then k - 1 else k)
           {..<n} {..<(n :: nat)}"
  by (rule bij_betw_byWitness
        [where f' = "\<lambda>k. if to \<le> k \<and> k < from then k + 1 else if k = from then to else k"])
    (use assms in auto)

lemma bij_MovePostion_order:
  assumes "from < n" and "to < n"
  shows "bij_betw (MovePostion_order from to) {..<n} {..<n}"
  by (rule bij_betw_byWitness [where f' = "MovePostion_order to from"])
    (use assms in \<open>auto simp: MovePostion_order_def\<close>)

lemma uadd_usub:
  assumes "start \<le> x" and "x + to - start < 2 ^ 32" and "start < 2 ^ 32" and "to < 2 ^ 32"
  shows "uadd x (usub to start) = x + to - start"
proof -
  have m: "start mod 2 ^ 32 = start"
    using assms(3) by (rule mod_less)
  have u: "usub to start = (to + 2 ^ 32 - start) mod 2 ^ 32"
    by (simp only: usub_def m)
  show ?thesis
  proof (cases "start \<le> to")
    case True
    then have "to + 2 ^ 32 - start = (to - start) + 2 ^ 32"
      by simp
    then have "usub to start = ((to - start) + 2 ^ 32) mod 2 ^ 32"
      by (simp only: u)
    also have "\<dots> = (to - start) mod 2 ^ 32"
      by (rule mod_add_self2)
    also have "\<dots> = to - start"
      using assms(4) by (intro mod_less) simp
    finally have "uadd x (usub to start) = (x + (to - start)) mod 2 ^ 32"
      by (simp only: uadd_def)
    also have "x + (to - start) = x + to - start"
      using True by simp
    finally show ?thesis
      using assms(2) by (simp only: mod_less)
  next
    case False
    then have lt: "to + 2 ^ 32 - start < 2 ^ 32"
      by simp
    have "usub to start = to + 2 ^ 32 - start"
      using lt by (simp only: u mod_less)
    then have "uadd x (usub to start) = (x + (to + 2 ^ 32 - start)) mod 2 ^ 32"
      by (simp only: uadd_def)
    also have "x + (to + 2 ^ 32 - start) = (x + to - start) + 2 ^ 32"
      using assms(1,3) by simp
    also have "((x + to - start) + 2 ^ 32) mod 2 ^ 32 = (x + to - start) mod 2 ^ 32"
      by (rule mod_add_self2)
    finally show ?thesis
      using assms(2) by (simp only: mod_less)
  qed
qed

lemma MoveRange_order_block_move:
  assumes "start \<le> end" and "end \<le> n" and "to \<le> n - (end - start)" and "n < 2 ^ 32"
    and "x < n"
  shows "MoveRange_order start end to x = block_move start (end - start) to x"
proof (cases "start \<le> x \<and> x < end")
  case True
  have "x + to - start < n"
    using True assms(1-3) by linarith
  then have b1: "x + to - start < 2 ^ 32"
    using assms(4) by (rule less_trans)
  have "start \<le> n"
    using assms(1,2) by (rule le_trans)
  then have b2: "start < 2 ^ 32"
    using assms(4) by (rule le_less_trans)
  have "to \<le> n"
    using assms(3) by linarith
  then have b3: "to < 2 ^ 32"
    using assms(4) by (rule le_less_trans)
  from True have "start \<le> x"
    by simp
  then have "uadd x (usub to start) = x + to - start"
    using b1 b2 b3 by (rule uadd_usub)
  with True assms(1) show ?thesis
    by (auto simp: MoveRange_order_def block_move_def)
next
  case False
  with assms(1) show ?thesis
    by (auto simp: MoveRange_order_def block_move_def)
qed

lemma block_move_back:
  "block_move to len start (block_move start len to x) = x"
proof -
  consider (block) "start \<le> x \<and> x < start + len"
    | (up) "start + len \<le> x \<and> x < to + len"
    | (down) "to \<le> x \<and> x < start"
    | (out) "\<not> (start \<le> x \<and> x < start + len) \<and> \<not> (start + len \<le> x \<and> x < to + len)
             \<and> \<not> (to \<le> x \<and> x < start)"
    by blast
  then show ?thesis
  proof cases
    case block
    then show ?thesis by (auto simp: block_move_def)
  next
    case up
    then show ?thesis by (auto simp: block_move_def)
  next
    case down
    then show ?thesis by (auto simp: block_move_def)
  next
    case out
    then show ?thesis by (auto simp: block_move_def)
  qed
qed

lemma block_move_less:
  assumes "start + len \<le> n" and "to + len \<le> n" and "x < n"
  shows "block_move start len to x < n"
  using assms by (auto simp: block_move_def)

lemma bij_block_move:
  assumes "start + len \<le> n" and "to + len \<le> n"
  shows "bij_betw (block_move start len to) {..<n} {..<n}"
  by (rule bij_betw_byWitness [where f' = "block_move to len start"])
    (use assms in \<open>auto simp: block_move_back block_move_less\<close>)

lemma bij_MoveRange_order:
  assumes "start \<le> end" and "end \<le> n" and "to \<le> n - (end - start)" and "n < 2 ^ 32"
  shows "bij_betw (MoveRange_order start end to) {..<n} {..<n}"
proof -
  have "bij_betw (MoveRange_order start end to) {..<n} {..<n} \<longleftrightarrow>
      bij_betw (block_move start (end - start) to) {..<n} {..<n}"
    by (rule bij_betw_cong) (simp add: MoveRange_order_block_move [OF assms])
  moreover have "bij_betw (block_move start (end - start) to) {..<n} {..<n}"
    using assms by (intro bij_block_move) simp_all
  ultimately show ?thesis
    by simp
qed

lemma fold_invariant:
  assumes "P s" and "\<And>i s. i \<in> set ns \<Longrightarrow> P s \<Longrightarrow> P (f i s)"
  shows "P (fold f ns s)"
  using assms by (induction ns arbitrary: s) simp_all

text \<open>The part of the invariants that the order array is about.\<close>

lemma queue_alloc_cong:
  assumes "max_length q' = max_length q" and "queue_length q' = queue_length q"
    and "length (items q') = length (items q)" and "length (order q') = length (order q)"
    and "length (id_to_position q') = length (id_to_position q)"
  shows "queue_alloc q' = queue_alloc q"
  using assms by (simp add: queue_alloc_def)

lemma permutation_reindex:
  assumes "queue_alloc q" and "order_is_permutation q" and "queue_alloc q'"
    and "queue_length q' = queue_length q"
    and "bij_betw p {..<queue_length q} {..<queue_length q}"
    and "\<And>k. k < queue_length q \<Longrightarrow> order q' ! k = order q ! p k"
  shows "order_is_permutation q'"
proof -
  from assms(1,2) have "bij_betw (\<lambda>k. order q ! k) {..<queue_length q} {..<queue_length q}"
    by (simp add: order_is_permutation_iff)
  then have "bij_betw (\<lambda>k. order q' ! k) {..<queue_length q} {..<queue_length q}"
    using assms(5) by (rule bij_betw_reindex) (simp add: assms(6))
  with assms(3,4) show ?thesis
    by (simp add: order_is_permutation_iff)
qed

lemma permutation_revalue:
  assumes "queue_alloc q" and "order_is_permutation q" and "queue_alloc q'"
    and "queue_length q' = queue_length q"
    and "bij_betw f {..<queue_length q} {..<queue_length q}"
    and "\<And>k. k < queue_length q \<Longrightarrow> order q' ! k = f (order q ! k)"
  shows "order_is_permutation q'"
proof -
  from assms(1,2) have "bij_betw (\<lambda>k. order q ! k) {..<queue_length q} {..<queue_length q}"
    by (simp add: order_is_permutation_iff)
  with assms(5) have "bij_betw (\<lambda>k. order q' ! k) {..<queue_length q} {..<queue_length q}"
    by (rule bij_betw_reindex) (simp add: assms(6))
  with assms(3,4) show ?thesis
    by (simp add: order_is_permutation_iff)
qed

lemma order_entry_less:
  assumes "queue_alloc q" and "order_is_permutation q" and "k < queue_length q"
  shows "order q ! k < queue_length q"
proof -
  from assms(1,2) have "bij_betw (\<lambda>k. order q ! k) {..<queue_length q} {..<queue_length q}"
    by (simp add: order_is_permutation_iff)
  then have "(\<lambda>k. order q ! k) ` {..<queue_length q} = {..<queue_length q}"
    by (simp add: bij_betw_def)
  with assms(3) show ?thesis
    by blast
qed

lemma order_entry_inj:
  assumes "queue_alloc q" and "order_is_permutation q" and "k < queue_length q"
    and "l < queue_length q" and "order q ! k = order q ! l"
  shows "k = l"
proof -
  from assms(1,2) have "bij_betw (\<lambda>k. order q ! k) {..<queue_length q} {..<queue_length q}"
    by (simp add: order_is_permutation_iff)
  then have "inj_on (\<lambda>k. order q ! k) {..<queue_length q}"
    by (simp add: bij_betw_def)
  with assms(3-5) show ?thesis
    by (simp add: inj_on_def)
qed

lemma order_entry_exists:
  assumes "queue_alloc q" and "order_is_permutation q" and "position < queue_length q"
  shows "\<exists>k < queue_length q. order q ! k = position"
proof -
  from assms(1,2) have "bij_betw (\<lambda>k. order q ! k) {..<queue_length q} {..<queue_length q}"
    by (simp add: order_is_permutation_iff)
  then have "(\<lambda>k. order q ! k) ` {..<queue_length q} = {..<queue_length q}"
    by (simp add: bij_betw_def)
  with assms(3) have "position \<in> (\<lambda>k. order q ! k) ` {..<queue_length q}"
    by simp
  then show ?thesis
    by auto
qed

subsection \<open>Swaps in the order array\<close>

lemma SwapOrders_frame:
  "queue_length (SwapOrders q i j) = queue_length q"
  "max_length (SwapOrders q i j) = max_length q"
  "items (SwapOrders q i j) = items q"
  "id_to_position (SwapOrders q i j) = id_to_position q"
  "random (SwapOrders q i j) = random q"
  "length (order (SwapOrders q i j)) = length (order q)"
  by (simp_all add: SwapOrders_def Let_def)

lemma SwapOrders_nth:
  assumes "i < length (order q)" and "j < length (order q)"
  shows "order (SwapOrders q i j) ! k = order q ! (if k = i then j else if k = j then i else k)"
  using assms by (auto simp: SwapOrders_def Let_def nth_list_update)

lemma SwapOrders_permutation:
  assumes "queue_alloc q" and "order_is_permutation q"
    and "i < queue_length q" and "j < queue_length q"
  shows "queue_alloc (SwapOrders q i j) \<and> order_is_permutation (SwapOrders q i j)"
proof -
  have a: "queue_alloc (SwapOrders q i j)"
    using assms(1) by (simp add: queue_alloc_cong [of "SwapOrders q i j" q] SwapOrders_frame)
  from assms have len: "i < length (order q)" "j < length (order q)"
    by (simp_all add: queue_alloc_def)
  have "order_is_permutation (SwapOrders q i j)"
    using assms(1,2) a
  proof (rule permutation_reindex)
    show "queue_length (SwapOrders q i j) = queue_length q"
      by (simp add: SwapOrders_frame)
    show "bij_betw (\<lambda>k. if k = i then j else if k = j then i else k)
            {..<queue_length q} {..<queue_length q}"
      using assms(3,4) by (rule bij_swap)
    show "order (SwapOrders q i j) ! k = order q ! (if k = i then j else if k = j then i else k)"
      for k
      using len by (rule SwapOrders_nth)
  qed
  with a show ?thesis
    by simp
qed

lemma uniform_int_distribution_rand:
  assumes "uniform_int_distribution q a b = (r, q')"
  shows "\<exists>rs. q' = q\<lparr>rand := rs\<rparr>"
proof (cases "rand q")
  case Nil
  with assms have "q' = q\<lparr>rand := rand q\<rparr>"
    by (simp add: uniform_int_distribution_def)
  then show ?thesis
    by blast
next
  case (Cons x xs)
  with assms have "q' = q\<lparr>rand := xs\<rparr>"
    by (simp add: uniform_int_distribution_def)
  then show ?thesis
    by blast
qed

lemma uniform_int_distribution_range:
  assumes "uniform_int_distribution q a b = (r, q')" and "a \<le> b"
  shows "a \<le> r" and "r \<le> b" and "\<exists>rs. q' = q\<lparr>rand := rs\<rparr>"
proof -
  have m: "a + x mod (b - a + 1) \<le> b" for x
  proof -
    have "x mod (b - a + 1) < b - a + 1"
      by simp
    with assms(2) show ?thesis
      by linarith
  qed
  from assms(1) show "a \<le> r"
    by (auto simp: uniform_int_distribution_def split: list.splits)
  from assms show "r \<le> b"
    using m by (auto simp: uniform_int_distribution_def split: list.splits)
  from assms(1) show "\<exists>rs. q' = q\<lparr>rand := rs\<rparr>"
    by (rule uniform_int_distribution_rand)
qed

lemma rand_update_invariants [simp]:
  "queue_alloc (q\<lparr>rand := rs\<rparr>) = queue_alloc q"
  "order_is_permutation (q\<lparr>rand := rs\<rparr>) = order_is_permutation q"
  by (simp_all add: queue_alloc_def order_is_permutation_def)

lemma usub_one: "0 < n \<Longrightarrow> n < 2 ^ 32 \<Longrightarrow> usub n 1 = n - 1"
proof -
  assume n: "0 < n" "n < 2 ^ 32"
  then have "n + 2 ^ 32 - 1 = (n - 1) + 2 ^ 32"
    by simp
  then have "usub n 1 = ((n - 1) + 2 ^ 32) mod 2 ^ 32"
    by (simp add: usub_def)
  also have "\<dots> = (n - 1) mod 2 ^ 32"
    by (rule mod_add_self2)
  also have "\<dots> = n - 1"
    using n by (intro mod_less) simp
  finally show ?thesis .
qed

lemma queue_length_small:
  assumes "queue_alloc q"
  shows "queue_length q < 2 ^ 32"
  using assms by (simp add: queue_alloc_def QUEUE_HASH_MULT_def)

lemma ShuffleOrderFirst_permutation:
  assumes "queue_alloc q" and "order_is_permutation q"
    and "start < end" and "end \<le> queue_length q"
  shows "queue_alloc (ShuffleOrderFirst q start end)
       \<and> order_is_permutation (ShuffleOrderFirst q start end)
       \<and> queue_length (ShuffleOrderFirst q start end) = queue_length q
       \<and> max_length (ShuffleOrderFirst q start end) = max_length q
       \<and> items (ShuffleOrderFirst q start end) = items q
       \<and> random (ShuffleOrderFirst q start end) = random q"
proof -
  from assms have e: "usub end 1 = end - 1"
    using queue_length_small [OF assms(1)] by (intro usub_one) simp_all
  obtain r q' where u: "uniform_int_distribution q start (end - 1) = (r, q')"
    by (cases "uniform_int_distribution q start (end - 1)")
  from assms(3) have "start \<le> end - 1"
    by simp
  from uniform_int_distribution_range [OF u this] obtain rs
    where r: "start \<le> r" "r \<le> end - 1" and q': "q' = q\<lparr>rand := rs\<rparr>"
    by blast
  have res: "ShuffleOrderFirst q start end = SwapOrders q' start r"
    unfolding ShuffleOrderFirst_def e u by simp
  have "queue_alloc (SwapOrders q' start r) \<and> order_is_permutation (SwapOrders q' start r)"
    using assms r by (intro SwapOrders_permutation) (simp_all add: q')
  then show ?thesis
    by (simp add: res SwapOrders_frame q')
qed

lemma ShuffleOrderLast_permutation:
  assumes "queue_alloc q" and "order_is_permutation q"
    and "start < end" and "end \<le> queue_length q"
  shows "queue_alloc (ShuffleOrderLast q start end)
       \<and> order_is_permutation (ShuffleOrderLast q start end)"
proof -
  from assms have e: "usub end 1 = end - 1"
    using queue_length_small [OF assms(1)] by (intro usub_one) simp_all
  obtain r q' where u: "uniform_int_distribution q start (end - 1) = (r, q')"
    by (cases "uniform_int_distribution q start (end - 1)")
  from assms(3) have "start \<le> end - 1"
    by simp
  from uniform_int_distribution_range [OF u this] obtain rs
    where r: "start \<le> r" "r \<le> end - 1" and q': "q' = q\<lparr>rand := rs\<rparr>"
    by blast
  have res: "ShuffleOrderLast q start end = SwapOrders q' (end - 1) r"
    unfolding ShuffleOrderLast_def e u by simp
  have "queue_alloc (SwapOrders q' (end - 1) r) \<and> order_is_permutation (SwapOrders q' (end - 1) r)"
    using assms r by (intro SwapOrders_permutation) (simp_all add: q')
  then show ?thesis
    by (simp add: res)
qed

subsection \<open>Shuffling and sorting ranges of the order array\<close>

lemma std_shuffle_permutation:
  assumes "queue_alloc q" and "order_is_permutation q" and "end \<le> queue_length q"
  shows "queue_alloc (std_shuffle q start end) \<and> order_is_permutation (std_shuffle q start end)
       \<and> queue_length (std_shuffle q start end) = queue_length q
       \<and> max_length (std_shuffle q start end) = max_length q
       \<and> items (std_shuffle q start end) = items q
       \<and> random (std_shuffle q start end) = random q"
  unfolding std_shuffle_def
proof (rule fold_invariant [where P = "\<lambda>s. queue_alloc s \<and> order_is_permutation s
       \<and> queue_length s = queue_length q \<and> max_length s = max_length q
       \<and> items s = items q \<and> random s = random q"])
  show "queue_alloc q \<and> order_is_permutation q \<and> queue_length q = queue_length q
       \<and> max_length q = max_length q \<and> items q = items q \<and> random q = random q"
    using assms by simp
next
  fix i s
  assume i: "i \<in> set [start + 1..<end]"
    and s: "queue_alloc s \<and> order_is_permutation s \<and> queue_length s = queue_length q
       \<and> max_length s = max_length q \<and> items s = items q \<and> random s = random q"
  obtain j s' where u: "uniform_int_distribution s start i = (j, s')"
    by (cases "uniform_int_distribution s start i")
  from i have "start \<le> i"
    by simp
  from uniform_int_distribution_range [OF u this] obtain rs
    where j: "start \<le> j" "j \<le> i" and s': "s' = s\<lparr>rand := rs\<rparr>"
    by blast
  from i assms(3) j s have lt: "i < queue_length s'" "j < queue_length s'"
    by (simp_all add: s')
  have "queue_alloc (SwapOrders s' i j) \<and> order_is_permutation (SwapOrders s' i j)"
    using s lt by (intro SwapOrders_permutation) (simp_all add: s')
  with s show "queue_alloc (case uniform_int_distribution s start i of (j, q') \<Rightarrow> SwapOrders q' i j)
       \<and> order_is_permutation (case uniform_int_distribution s start i of (j, q') \<Rightarrow> SwapOrders q' i j)
       \<and> queue_length (case uniform_int_distribution s start i of (j, q') \<Rightarrow> SwapOrders q' i j) = queue_length q
       \<and> max_length (case uniform_int_distribution s start i of (j, q') \<Rightarrow> SwapOrders q' i j) = max_length q
       \<and> items (case uniform_int_distribution s start i of (j, q') \<Rightarrow> SwapOrders q' i j) = items q
       \<and> random (case uniform_int_distribution s start i of (j, q') \<Rightarrow> SwapOrders q' i j) = random q"
    by (simp add: u SwapOrders_frame s')
qed

lemma ShuffleOrderRange_permutation:
  assumes "queue_alloc q" and "order_is_permutation q"
    and "ShuffleOrderRange q start end = Inr q'"
  shows "queue_alloc q' \<and> order_is_permutation q' \<and> queue_length q' = queue_length q
       \<and> max_length q' = max_length q \<and> items q' = items q \<and> random q' = random q"
proof -
  from assms(3) have "end \<le> queue_length q" and "q' = std_shuffle q start end"
    by (simp_all add: ShuffleOrderRange_def split: if_splits)
  with std_shuffle_permutation [OF assms(1,2), of "end" start] show ?thesis
    by simp
qed

lemma mset_insert_by: "mset (insert_by cmp x xs) = add_mset x (mset xs)"
  by (induction xs) simp_all

lemma mset_g_qsort_with_data: "mset (g_qsort_with_data cmp xs) = mset xs"
  by (induction xs) (simp_all add: g_qsort_with_data_def mset_insert_by)

lemma length_g_qsort_with_data: "length (g_qsort_with_data cmp xs) = length xs"
  using mset_g_qsort_with_data [of cmp xs] by (metis size_mset)

lemma slice_split:
  assumes "start \<le> end"
  shows "xs = take start xs @ take (end - start) (drop start xs) @ drop end xs"
proof -
  have "take start xs @ take (end - start) (drop start xs) = take (start + (end - start)) xs"
    by (simp add: take_add)
  also have "\<dots> = take end xs"
    using assms by simp
  finally have e: "take start xs @ take (end - start) (drop start xs) = take end xs" .
  have "xs = take end xs @ drop end xs"
    by simp
  also have "\<dots> = (take start xs @ take (end - start) (drop start xs)) @ drop end xs"
    by (simp only: e)
  finally show ?thesis
    by (simp only: append_assoc)
qed

lemma queue_sort_order_by_priority_permutation:
  assumes "queue_alloc q" and "order_is_permutation q"
    and "queue_sort_order_by_priority q start end = Inr q'"
  shows "queue_alloc q' \<and> order_is_permutation q' \<and> queue_length q' = queue_length q
       \<and> max_length q' = max_length q \<and> items q' = items q \<and> random q' = random q"
proof -
  define slice where "slice = take (end - start) (drop start (order q))"
  define sorted where "sorted = g_qsort_with_data (queue_item_compare_order_priority q) slice"
  from assms(3) have se: "start \<le> end" "end \<le> queue_length q"
    and q': "q' = q\<lparr>order := take start (order q) @ sorted @ drop end (order q)\<rparr>"
    by (simp_all add: queue_sort_order_by_priority_def sorted_def slice_def split: if_splits)
  from assms(1) se have len: "end \<le> length (order q)" "queue_length q \<le> length (order q)"
    by (simp_all add: queue_alloc_def)
  have split: "order q = take start (order q) @ slice @ drop end (order q)"
    unfolding slice_def using se(1) by (rule slice_split)
  have ls: "length sorted = end - start"
    using len se(1) by (simp add: sorted_def slice_def length_g_qsort_with_data)
  have l: "length (order q') = length (order q)"
    using len se(1) by (simp add: q' ls)
  have a: "queue_alloc q'"
    using assms(1) l by (subst queue_alloc_cong [of q' q]) (simp_all add: q')
  have "mset (order q') = mset (take start (order q)) + mset slice + mset (drop end (order q))"
    by (simp add: q' sorted_def mset_g_qsort_with_data)
  also have "\<dots> = mset (take start (order q) @ slice @ drop end (order q))"
    by simp
  also have "\<dots> = mset (order q)"
    using split by simp
  finally have whole: "mset (order q') = mset (order q)" .
  have tail: "drop (queue_length q) (order q') = drop (queue_length q) (order q)"
    using se len by (simp add: q' ls)
  have "mset (take (queue_length q) (order q')) = mset (take (queue_length q) (order q))"
    using whole tail by (rule mset_take_eq)
  with assms(2) have "order_is_permutation q'"
    by (simp add: order_is_permutation_def q')
  with a show ?thesis
    by (simp add: q')
qed

lemma ShuffleOrderRangeWithPriority_groups_unfold:
  "ShuffleOrderRangeWithPriority_groups q end group_start group_priority i = Inr r \<Longrightarrow>
     (\<not> i < end \<and> r = (q, group_start))
     \<or> (i < end \<and> (\<exists>priority. queue_get_order_priority q i = Inr priority
           \<and> priority \<le> group_priority
           \<and> (if priority \<noteq> group_priority
                then \<exists>q1. ShuffleOrderRange q group_start i = Inr q1
                       \<and> ShuffleOrderRangeWithPriority_groups q1 end i priority (i + 1) = Inr r
                else ShuffleOrderRangeWithPriority_groups q end group_start group_priority (i + 1)
                       = Inr r)))"
  by (subst (asm) ShuffleOrderRangeWithPriority_groups.simps)
    (auto simp: bind_r_def split: if_splits sum.splits)

lemma ShuffleOrderRangeWithPriority_groups_permutation:
  assumes "queue_alloc q" and "order_is_permutation q"
    and "ShuffleOrderRangeWithPriority_groups q end group_start group_priority i = Inr (q', gs)"
  shows "queue_alloc q' \<and> order_is_permutation q' \<and> queue_length q' = queue_length q
       \<and> max_length q' = max_length q \<and> items q' = items q \<and> random q' = random q"
  using assms
proof (induction "end - i" arbitrary: q group_start group_priority i rule: less_induct)
  case less
  from ShuffleOrderRangeWithPriority_groups_unfold [OF less.prems(3)]
  consider (finished) "\<not> i < end" "(q', gs) = (q, group_start)"
    | (same) priority where "i < end" "queue_get_order_priority q i = Inr priority"
        "priority = group_priority"
        "ShuffleOrderRangeWithPriority_groups q end group_start group_priority (i + 1) = Inr (q', gs)"
    | (new) priority q1 where "i < end" "queue_get_order_priority q i = Inr priority"
        "priority \<noteq> group_priority" "ShuffleOrderRange q group_start i = Inr q1"
        "ShuffleOrderRangeWithPriority_groups q1 end i priority (i + 1) = Inr (q', gs)"
    by (auto split: if_splits)
  then show ?case
  proof cases
    case finished
    with less.prems(1,2) show ?thesis
      by simp
  next
    case same
    from same(1) have "end - (i + 1) < end - i"
      by simp
    then show ?thesis
      using less.prems(1,2) same(4) by (rule less.hyps)
  next
    case new
    note q1 = ShuffleOrderRange_permutation [OF less.prems(1,2) new(4)]
    from new(1) have "end - (i + 1) < end - i"
      by simp
    then have "queue_alloc q' \<and> order_is_permutation q' \<and> queue_length q' = queue_length q1
       \<and> max_length q' = max_length q1 \<and> items q' = items q1 \<and> random q' = random q1"
      using q1 new(5) by (intro less.hyps) simp_all
    with q1 show ?thesis
      by simp
  qed
qed

lemma ShuffleOrderRangeWithPriority_permutation:
  assumes "queue_alloc q" and "order_is_permutation q"
    and "ShuffleOrderRangeWithPriority q start end = Inr q'"
  shows "queue_alloc q' \<and> order_is_permutation q' \<and> queue_length q' = queue_length q
       \<and> max_length q' = max_length q \<and> items q' = items q \<and> random q' = random q"
proof (cases "start = end")
  case True
  with assms show ?thesis
    by (simp add: ShuffleOrderRangeWithPriority_def split: if_splits)
next
  case False
  with assms(3) obtain q1 group_priority q2 group_start
    where s: "queue_sort_order_by_priority q start end = Inr q1"
      and g: "ShuffleOrderRangeWithPriority_groups q1 end start group_priority (start + 1)
                = Inr (q2, group_start)"
      and l: "ShuffleOrderRange q2 group_start end = Inr q'"
    by (auto simp: ShuffleOrderRangeWithPriority_def bind_r_def split: if_splits sum.splits)
  note q1 = queue_sort_order_by_priority_permutation [OF assms(1,2) s]
  from q1 have "queue_alloc q1" "order_is_permutation q1"
    by simp_all
  note q2 = ShuffleOrderRangeWithPriority_groups_permutation [OF this g]
  from q2 have "queue_alloc q2" "order_is_permutation q2"
    by simp_all
  note q3 = ShuffleOrderRange_permutation [OF this l]
  from q1 q2 q3 show ?thesis
    by simp
qed

subsection \<open>Moving one entry of the order array\<close>

lemma queue_move_order_permutation:
  assumes "queue_alloc q" and "order_is_permutation q"
    and "queue_move_order q from_order to_order = Inr q'" and "to_order < queue_length q"
  shows "queue_alloc q' \<and> order_is_permutation q' \<and> queue_length q' = queue_length q
       \<and> max_length q' = max_length q \<and> items q' = items q \<and> random q' = random q
       \<and> order q' ! to_order = order q ! from_order"
proof -
  define n where "n = queue_length q"
  from assms(3) have from_lt: "from_order < n"
    by (simp add: queue_move_order_def n_def split: if_splits)
  from assms(1) have len: "n \<le> length (order q)"
    by (simp add: queue_alloc_def n_def)
  define ord1 where "ord1 =
      (if from_order < to_order
       then fold (\<lambda>i ord. ord[i := ord ! (i + 1)]) [from_order..<to_order] (order q)
       else fold (\<lambda>i ord. ord[i := ord ! (i - 1)]) (rev [to_order + 1..<from_order + 1]) (order q))"
  from assms(3) from_lt have q': "q' = q\<lparr>order := ord1[to_order := order q ! from_order]\<rparr>"
    by (simp add: queue_move_order_def OrderToPosition_def bind_r_def ord1_def n_def
        split: if_splits)
  have l1: "length ord1 = length (order q)"
    by (simp add: ord1_def)
  have a: "queue_alloc q'"
    using assms(1) l1 by (subst queue_alloc_cong [of q' q]) (simp_all add: q')
  have to_len: "to_order < length (order q)"
    using assms(4) len by (simp add: n_def)
  have p: "order_is_permutation q'"
  proof (cases "from_order < to_order")
    case True
    have nth1: "ord1 ! k = (if from_order \<le> k \<and> k < to_order then order q ! (k + 1)
                            else order q ! k)" for k
      using shift_left_nth [OF to_len, of "\<lambda>x. x" from_order k] True by (simp add: ord1_def)
    show ?thesis
      using assms(1,2) a
    proof (rule permutation_reindex)
      show "queue_length q' = queue_length q"
        by (simp add: q')
      show "bij_betw (\<lambda>k. if from_order \<le> k \<and> k < to_order then k + 1
                           else if k = to_order then from_order else k)
              {..<queue_length q} {..<queue_length q}"
        using True assms(4) by (intro bij_rotate_left) simp_all
      show "order q' ! k = order q ! (if from_order \<le> k \<and> k < to_order then k + 1
                           else if k = to_order then from_order else k)" for k
        using to_len l1 by (simp add: q' nth_list_update nth1)
    qed
  next
    case False
    have nth1: "ord1 ! k = (if to_order < k \<and> k \<le> from_order \<and> k < length (order q)
                            then order q ! (k - 1) else order q ! k)" for k
      using shift_right_nth [of "\<lambda>x. x" to_order from_order "order q" k] False
      by (simp add: ord1_def)
    show ?thesis
      using assms(1,2) a
    proof (rule permutation_reindex)
      show "queue_length q' = queue_length q"
        by (simp add: q')
      show "bij_betw (\<lambda>k. if k = to_order then from_order
                           else if to_order < k \<and> k \<le> from_order then k - 1 else k)
              {..<queue_length q} {..<queue_length q}"
        using False from_lt by (intro bij_rotate_right) (simp_all add: n_def)
      show "order q' ! k = order q ! (if k = to_order then from_order
                           else if to_order < k \<and> k \<le> from_order then k - 1 else k)"
        if "k < queue_length q" for k
        using to_len l1 that len by (simp add: q' nth_list_update nth1 n_def)
    qed
  qed
  have "order q' ! to_order = order q ! from_order"
    using to_len l1 by (simp add: q')
  with a p show ?thesis
    by (simp add: q')
qed

subsection \<open>The searches of SetPriority\<close>

lemma PositionToOrder_from_Inr:
  assumes "PositionToOrder_from q position i = Inr r"
  shows "i \<le> r \<and> r < queue_length q \<and> order q ! r = position"
  using assms
proof (induction "queue_length q - i" arbitrary: i rule: less_induct)
  case less
  from less.prems have lt: "i < queue_length q"
    by (subst (asm) PositionToOrder_from.simps) (simp split: if_splits)
  show ?case
  proof (cases "order q ! i = position")
    case True
    with less.prems lt show ?thesis
      by (subst (asm) PositionToOrder_from.simps) simp
  next
    case False
    with less.prems lt have "PositionToOrder_from q position (i + 1) = Inr r"
      by (subst (asm) PositionToOrder_from.simps) simp
    moreover from lt have "queue_length q - (i + 1) < queue_length q - i"
      by simp
    ultimately have "i + 1 \<le> r \<and> r < queue_length q \<and> order q ! r = position"
      by (intro less.hyps)
    then show ?thesis
      by simp
  qed
qed

lemma PositionToOrder_Inr:
  assumes "PositionToOrder q position = Inr r"
  shows "r < queue_length q \<and> order q ! r = position"
  using assms PositionToOrder_from_Inr [of q position 0 r]
  by (simp add: PositionToOrder_def split: if_splits)

lemma queue_find_priority_order_from_bounds:
  assumes "queue_find_priority_order_from q priority exclude_order ord = Inr r"
    and "ord \<le> queue_length q"
  shows "ord \<le> r \<and> r \<le> queue_length q"
  using assms
proof (induction "queue_length q - ord" arbitrary: ord rule: less_induct)
  case less
  show ?case
  proof (cases "ord < queue_length q")
    case False
    with less.prems show ?thesis
      by (subst (asm) queue_find_priority_order_from.simps) simp
  next
    case True
    show ?thesis
    proof (cases "item_priority (items q ! (order q ! ord)) \<le> priority \<and> ord \<noteq> exclude_order")
      case found: True
      with less.prems True show ?thesis
        by (subst (asm) queue_find_priority_order_from.simps)
          (simp add: OrderToPosition_def bind_r_def)
    next
      case False
      with less.prems True
      have "queue_find_priority_order_from q priority exclude_order (ord + 1) = Inr r"
        by (subst (asm) queue_find_priority_order_from.simps)
          (auto simp: OrderToPosition_def bind_r_def)
      moreover from True have "queue_length q - (ord + 1) < queue_length q - ord"
        "ord + 1 \<le> queue_length q"
        by simp_all
      ultimately have "ord + 1 \<le> r \<and> r \<le> queue_length q"
        by (intro less.hyps)
      then show ?thesis
        by simp
    qed
  qed
qed

lemma queue_count_same_priority_from_bounds:
  assumes "queue_count_same_priority_from q start_order priority ord = Inr c"
    and "start_order \<le> ord" and "ord \<le> queue_length q"
  shows "start_order + c \<le> queue_length q"
  using assms
proof (induction "queue_length q - ord" arbitrary: ord rule: less_induct)
  case less
  show ?case
  proof (cases "ord < queue_length q")
    case False
    with less.prems show ?thesis
      by (subst (asm) queue_count_same_priority_from.simps) auto
  next
    case True
    show ?thesis
    proof (cases "item_priority (items q ! (order q ! ord)) \<noteq> priority")
      case stop: True
      with less.prems True show ?thesis
        by (subst (asm) queue_count_same_priority_from.simps)
          (auto simp: OrderToPosition_def bind_r_def)
    next
      case False
      with less.prems True
      have "queue_count_same_priority_from q start_order priority (ord + 1) = Inr c"
        by (subst (asm) queue_count_same_priority_from.simps)
          (auto simp: OrderToPosition_def bind_r_def)
      moreover from True less.prems have "queue_length q - (ord + 1) < queue_length q - ord"
        "start_order \<le> ord + 1" "ord + 1 \<le> queue_length q"
        by simp_all
      ultimately show ?thesis
        by (intro less.hyps)
    qed
  qed
qed

subsection \<open>SetPriority and SetPriorityRange\<close>

lemma items_update_invariants [simp]:
  "length its = length (items q) \<Longrightarrow> queue_alloc (q\<lparr>items := its\<rparr>) = queue_alloc q"
  "order_is_permutation (q\<lparr>items := its\<rparr>) = order_is_permutation q"
  by (simp_all add: queue_alloc_def order_is_permutation_def)

lemma SetPriority_cases:
  assumes "SetPriority q position priority after_order = Inr (m, q')"
  defines "q1 \<equiv> q\<lparr>items := (items q)[position :=
                     (items q ! position)\<lparr>item_version := version q,
                                           item_priority := priority\<rparr>]\<rparr>"
  shows "q' = q \<or> q' = q1
       \<or> (\<exists>ord before_order q2 c.
             PositionToOrder q1 position = Inr ord
             \<and> queue_find_priority_order q1 (int_to_unsigned (after_order + 1)) priority ord
                 = Inr before_order
             \<and> queue_move_order q1 ord
                 (if before_order > ord then before_order - 1 else before_order) = Inr q2
             \<and> queue_count_same_priority q2
                 (if before_order > ord then before_order - 1 else before_order) priority = Inr c
             \<and> 1 \<le> c
             \<and> q' = ShuffleOrderFirst q2
                 (if before_order > ord then before_order - 1 else before_order)
                 ((if before_order > ord then before_order - 1 else before_order) + c))"
  using assms(1) unfolding SetPriority_def Let_def q1_def bind_r_def
  by (auto split: if_splits sum.splits)

lemma SetPriority_permutation:
  assumes "queue_alloc q" and "order_is_permutation q"
    and "SetPriority q position priority after_order = Inr (m, q')"
  shows "queue_alloc q' \<and> order_is_permutation q' \<and> queue_length q' = queue_length q
       \<and> max_length q' = max_length q \<and> random q' = random q"
proof -
  define q1 where "q1 = q\<lparr>items := (items q)[position :=
                     (items q ! position)\<lparr>item_version := version q,
                                           item_priority := priority\<rparr>]\<rparr>"
  have q1: "queue_alloc q1" "order_is_permutation q1" "queue_length q1 = queue_length q"
    "max_length q1 = max_length q" "random q1 = random q"
    using assms(1,2) by (simp_all add: q1_def)
  from SetPriority_cases [OF assms(3), folded q1_def]
  consider (same) "q' = q" | (stamped) "q' = q1"
    | (moved) ord before_order q2 c where
        "PositionToOrder q1 position = Inr ord"
        "queue_find_priority_order q1 (int_to_unsigned (after_order + 1)) priority ord
           = Inr before_order"
        "queue_move_order q1 ord (if before_order > ord then before_order - 1 else before_order)
           = Inr q2"
        "queue_count_same_priority q2
           (if before_order > ord then before_order - 1 else before_order) priority = Inr c"
        "1 \<le> c"
        "q' = ShuffleOrderFirst q2
           (if before_order > ord then before_order - 1 else before_order)
           ((if before_order > ord then before_order - 1 else before_order) + c)"
    by blast
  then show ?thesis
  proof cases
    case same
    with assms(1,2) show ?thesis
      by simp
  next
    case stamped
    with q1 show ?thesis
      by simp
  next
    case moved
    define new_order where "new_order = (if before_order > ord then before_order - 1 else before_order)"
    note m = moved [folded new_order_def]
    from PositionToOrder_Inr [OF m(1)] q1(3) have ord: "ord < queue_length q"
      by simp
    from m(2) have "queue_find_priority_order_from q1 priority ord (int_to_unsigned (after_order + 1))
          = Inr before_order" and "int_to_unsigned (after_order + 1) \<le> queue_length q1"
      by (simp_all add: queue_find_priority_order_def split: if_splits)
    from queue_find_priority_order_from_bounds [OF this] q1(3)
    have "before_order \<le> queue_length q"
      by simp
    with ord have new_lt: "new_order < queue_length q1"
      by (auto simp: new_order_def q1(3))
    note q2 = queue_move_order_permutation [OF q1(1,2) m(3) new_lt]
    from m(4) have "queue_count_same_priority_from q2 new_order priority new_order = Inr c"
      and "new_order \<le> queue_length q2"
      by (simp_all add: queue_count_same_priority_def split: if_splits)
    from queue_count_same_priority_from_bounds [OF this(1) _ this(2)]
    have fits: "new_order + c \<le> queue_length q2"
      by simp
    from m(5) have "new_order < new_order + c"
      by simp
    with q2 fits have "queue_alloc q' \<and> order_is_permutation q'
       \<and> queue_length q' = queue_length q2 \<and> max_length q' = max_length q2
       \<and> items q' = items q2 \<and> random q' = random q2"
      unfolding m(6) by (intro ShuffleOrderFirst_permutation) simp_all
    with q1 q2 show ?thesis
      by simp
  qed
qed

lemma SetPriorityRange_from_permutation:
  assumes "queue_alloc q" and "order_is_permutation q"
    and "SetPriorityRange_from q end_position priority after_position modified i = Inr (m, q')"
  shows "queue_alloc q' \<and> order_is_permutation q' \<and> queue_length q' = queue_length q
       \<and> max_length q' = max_length q \<and> random q' = random q"
  using assms
proof (induction "end_position - i" arbitrary: q modified i rule: less_induct)
  case less
  show ?case
  proof (cases "i < end_position")
    case False
    with less.prems show ?thesis
      by (subst (asm) SetPriorityRange_from.simps) simp
  next
    case True
    with less.prems(3) obtain after_order m1 q1
      where s: "SetPriority q i priority after_order = Inr (m1, q1)"
        and r: "SetPriorityRange_from q1 end_position priority after_position (modified \<or> m1)
                  (i + 1) = Inr (m, q')"
      by (subst (asm) SetPriorityRange_from.simps)
        (auto simp: bind_r_def split: sum.splits if_splits)
    note q1 = SetPriority_permutation [OF less.prems(1,2) s]
    from True have "end_position - (i + 1) < end_position - i"
      by simp
    then have "queue_alloc q' \<and> order_is_permutation q' \<and> queue_length q' = queue_length q1
       \<and> max_length q' = max_length q1 \<and> random q' = random q1"
      using q1 r by (intro less.hyps) simp_all
    with q1 show ?thesis
      by simp
  qed
qed

lemma SetPriorityRange_permutation:
  assumes "queue_alloc q" and "order_is_permutation q"
    and "SetPriorityRange q start_position end_position priority after_order = Inr (m, q')"
  shows "queue_alloc q' \<and> order_is_permutation q'"
proof -
  from assms(3) obtain after_position
    where "SetPriorityRange_from q end_position priority after_position False start_position
             = Inr (m, q')"
    by (auto simp: SetPriorityRange_def bind_r_def split: sum.splits if_splits)
  from SetPriorityRange_from_permutation [OF assms(1,2) this] show ?thesis
    by simp
qed

subsection \<open>The loops over the items leave the order array alone\<close>

lemma queue_move_song_to_frame:
  "order (queue_move_song_to q from to) = order q"
  "queue_length (queue_move_song_to q from to) = queue_length q"
  "max_length (queue_move_song_to q from to) = max_length q"
  "random (queue_move_song_to q from to) = random q"
  "version (queue_move_song_to q from to) = version q"
  "length (items (queue_move_song_to q from to)) = length (items q)"
  "length (id_to_position (queue_move_song_to q from to)) = length (id_to_position q)"
  by (simp_all add: queue_move_song_to_eq)

lemma MoveRange_down_preserves:
  assumes "\<And>q from to. proj (queue_move_song_to q from to) = proj q"
  shows "proj (MoveRange_down q start end to i) = proj q"
proof (induction q start "end" to i rule: MoveRange_down.induct)
  case (1 q start "end" to i)
  show ?case
  proof (cases "i \<ge> to \<and> i \<noteq> G_MAXUINT")
    case True
    then have "MoveRange_down q start end to i =
        MoveRange_down (queue_move_song_to q i (i + end - start)) start end to (usub i 1)"
      by (subst MoveRange_down.simps) simp
    with "1.IH" [OF True] assms show ?thesis
      by simp
  next
    case False
    then show ?thesis
      by (subst MoveRange_down.simps) auto
  qed
qed

lemma SwapPositions_frame:
  "order (SwapPositions q i j) = order q"
  "queue_length (SwapPositions q i j) = queue_length q"
  "max_length (SwapPositions q i j) = max_length q"
  "length (items (SwapPositions q i j)) = length (items q)"
  "length (id_to_position (SwapPositions q i j)) = length (id_to_position q)"
  by (simp_all add: SwapPositions_def Let_def)

lemma unchanged_order_invariants:
  assumes "queue_alloc q" and "order_is_permutation q"
    and "order q' = order q" and "queue_length q' = queue_length q"
    and "max_length q' = max_length q" and "length (items q') = length (items q)"
    and "length (id_to_position q') = length (id_to_position q)"
  shows "queue_alloc q' \<and> order_is_permutation q'"
  using assms by (simp add: queue_alloc_def order_is_permutation_def)

subsection \<open>The operations on positions\<close>

lemma Append_permutation:
  assumes "queue_alloc q" and "order_is_permutation q"
    and "Append q cur s prio = Inr (ident, q')"
  shows "queue_alloc q' \<and> order_is_permutation q'"
proof -
  define n where "n = queue_length q"
  note r = Append_Inr [OF assms(3)]
  from r(1) assms(1) have len: "n < length (order q)" "n < max_length q"
    by (simp_all add: queue_alloc_def n_def)
  have "take (Suc n) ((order q)[n := n]) = take n (order q) @ [n]"
    using len by (simp add: take_Suc_conv_app_nth)
  then have "mset (take (Suc n) ((order q)[n := n])) = mset [0..<Suc n]"
    using assms(2) by (simp add: order_is_permutation_def n_def)
  then have "order_is_permutation q'"
    by (simp add: order_is_permutation_def r(3) n_def)
  moreover have "queue_alloc q'"
    using assms(1) len by (simp add: queue_alloc_def r(3) n_def)
  ultimately show ?thesis
    by simp
qed

lemma Clear_permutation:
  assumes "queue_alloc q"
  shows "queue_alloc (Clear q) \<and> order_is_permutation (Clear q)"
proof -
  have "length (fold (\<lambda>i idp. idp[item_id (items q ! i) := - 1]) [0..<queue_length q]
           (id_to_position q)) = length (id_to_position q)"
    by (rule fold_preserves) simp
  with assms show ?thesis
    by (simp add: Clear_def queue_alloc_def order_is_permutation_def)
qed

lemma SwapPositions_permutation:
  assumes "queue_alloc q" and "order_is_permutation q"
  shows "queue_alloc (SwapPositions q i j) \<and> order_is_permutation (SwapPositions q i j)"
  using assms by (rule unchanged_order_invariants) (simp_all add: SwapPositions_frame)

lemma ShuffleRange_permutation:
  assumes "queue_alloc q" and "order_is_permutation q" and "ShuffleRange q start end = Inr q'"
  shows "queue_alloc q' \<and> order_is_permutation q'"
proof -
  from assms(3) have q': "q' = fold (\<lambda>i q. case uniform_int_distribution q start (usub end 1) of
                              (ri, q') \<Rightarrow> SwapPositions q' i ri) [start..<end] q"
    by (simp add: ShuffleRange_def split: if_splits)
  show ?thesis
    unfolding q'
  proof (rule fold_invariant [where P = "\<lambda>s. queue_alloc s \<and> order_is_permutation s"])
    show "queue_alloc q \<and> order_is_permutation q"
      using assms by simp
  next
    fix i s
    assume s: "queue_alloc s \<and> order_is_permutation s"
    obtain ri s' where u: "uniform_int_distribution s start (usub end 1) = (ri, s')"
      by (cases "uniform_int_distribution s start (usub end 1)")
    then have "\<exists>rs. s' = s\<lparr>rand := rs\<rparr>"
      by (rule uniform_int_distribution_rand)
    with s have "queue_alloc s' \<and> order_is_permutation s'"
      by auto
    then have "queue_alloc (SwapPositions s' i ri) \<and> order_is_permutation (SwapPositions s' i ri)"
      by (intro SwapPositions_permutation) simp_all
    then show "queue_alloc (case uniform_int_distribution s start (usub end 1) of
                              (ri, q') \<Rightarrow> SwapPositions q' i ri)
       \<and> order_is_permutation (case uniform_int_distribution s start (usub end 1) of
                              (ri, q') \<Rightarrow> SwapPositions q' i ri)"
      unfolding u by simp
  qed
qed

lemma MovePostion_permutation:
  assumes "queue_alloc q" and "order_is_permutation q"
    and "from < queue_length q" and "to < queue_length q"
  shows "queue_alloc (MovePostion q from to) \<and> order_is_permutation (MovePostion q from to)"
proof -
  define q1 where "q1 = fold (\<lambda>i q. queue_move_song_to q (i + 1) i) [from..<to] q"
  define q2 where "q2 = fold (\<lambda>i q. queue_move_song_to q (i - 1) i) (rev [to + 1..<from + 1]) q1"
  define q3 where "q3 = q2\<lparr>id_to_position := (id_to_position q2)
         [item_id (items q ! from) := unsigned_to_int to],
       items := (items q2)[to := (items q ! from)\<lparr>item_version := version q2\<rparr>]\<rparr>"
  have f1: "order q1 = order q" "queue_length q1 = queue_length q" "max_length q1 = max_length q"
    "random q1 = random q" "length (items q1) = length (items q)"
    "length (id_to_position q1) = length (id_to_position q)"
    unfolding q1_def by (rule fold_preserves, simp add: queue_move_song_to_frame)+
  have f2: "order q2 = order q1" "queue_length q2 = queue_length q1" "max_length q2 = max_length q1"
    "random q2 = random q1" "length (items q2) = length (items q1)"
    "length (id_to_position q2) = length (id_to_position q1)"
    unfolding q2_def by (rule fold_preserves, simp add: queue_move_song_to_frame)+
  have f3: "order q3 = order q" "queue_length q3 = queue_length q" "max_length q3 = max_length q"
    "random q3 = random q" "length (items q3) = length (items q)"
    "length (id_to_position q3) = length (id_to_position q)"
    by (simp_all add: q3_def f1 f2)
  have q3: "queue_alloc q3 \<and> order_is_permutation q3"
    using assms(1,2) by (rule unchanged_order_invariants) (simp_all add: f3)
  have res: "MovePostion q from to =
      (if random q3
       then q3\<lparr>order := fold (\<lambda>i ord. ord[i := MovePostion_order from to (ord ! i)])
                              [0..<queue_length q3] (order q3)\<rparr>
       else q3)"
    by (simp add: MovePostion_def Let_def q1_def q2_def q3_def)
  show ?thesis
  proof (cases "random q3")
    case False
    with res q3 show ?thesis
      by simp
  next
    case True
    define q4 where "q4 = q3\<lparr>order := fold (\<lambda>i ord. ord[i := MovePostion_order from to (ord ! i)])
                              [0..<queue_length q3] (order q3)\<rparr>"
    have a: "queue_alloc q4"
      using q3 by (subst queue_alloc_cong [of q4 q3]) (simp_all add: q4_def)
    from q3 have len: "queue_length q3 \<le> length (order q3)"
      by (simp add: queue_alloc_def)
    have "order_is_permutation q4"
      using q3 [THEN conjunct1] q3 [THEN conjunct2] a
    proof (rule permutation_revalue)
      show "queue_length q4 = queue_length q3"
        by (simp add: q4_def)
      show "bij_betw (MovePostion_order from to) {..<queue_length q3} {..<queue_length q3}"
        using assms(3,4) by (intro bij_MovePostion_order) (simp_all add: f3)
      show "order q4 ! k = MovePostion_order from to (order q3 ! k)" if "k < queue_length q3" for k
        using that len by (simp add: q4_def nth_fold_update)
    qed
    with a True res show ?thesis
      by (simp add: q4_def)
  qed
qed

lemma MoveRange_permutation:
  assumes "queue_alloc q" and "order_is_permutation q"
    and "start \<le> end" and "end \<le> queue_length q" and "to \<le> queue_length q - (end - start)"
  shows "queue_alloc (MoveRange q start end to) \<and> order_is_permutation (MoveRange q start end to)"
proof -
  define tmp where "tmp = map (\<lambda>i. items q ! i) [start..<end]"
  define q1 where "q1 = fold (\<lambda>i q. queue_move_song_to q i (start + i - end))
                 [end..<end + to - start] q"
  define q2 where "q2 = MoveRange_down q1 start end to (usub start 1)"
  define q3 where "q3 = fold (\<lambda>i q.
                   q\<lparr>id_to_position := (id_to_position q)
                        [item_id (tmp ! (i - start)) := unsigned_to_int (to + i - start)],
                     items := (items q)
                        [to + i - start := (tmp ! (i - start))\<lparr>item_version := version q\<rparr>]\<rparr>)
                 [start..<end] q2"
  have f1: "order q1 = order q" "queue_length q1 = queue_length q" "max_length q1 = max_length q"
    "random q1 = random q" "length (items q1) = length (items q)"
    "length (id_to_position q1) = length (id_to_position q)"
    unfolding q1_def by (rule fold_preserves, simp add: queue_move_song_to_frame)+
  have f2: "order q2 = order q1" "queue_length q2 = queue_length q1" "max_length q2 = max_length q1"
    "random q2 = random q1" "length (items q2) = length (items q1)"
    "length (id_to_position q2) = length (id_to_position q1)"
    unfolding q2_def by (rule MoveRange_down_preserves, simp add: queue_move_song_to_frame)+
  have f3: "order q3 = order q2" "queue_length q3 = queue_length q2" "max_length q3 = max_length q2"
    "random q3 = random q2" "length (items q3) = length (items q2)"
    "length (id_to_position q3) = length (id_to_position q2)"
    unfolding q3_def by (rule fold_preserves, simp)+
  have q3: "queue_alloc q3 \<and> order_is_permutation q3"
    using assms(1,2) by (rule unchanged_order_invariants) (simp_all add: f1 f2 f3)
  have res: "MoveRange q start end to =
      (if random q3
       then q3\<lparr>order := fold (\<lambda>i ord. ord[i := MoveRange_order start end to (ord ! i)])
                              [0..<queue_length q3] (order q3)\<rparr>
       else q3)"
    by (simp add: MoveRange_def Let_def tmp_def q1_def q2_def q3_def)
  show ?thesis
  proof (cases "random q3")
    case False
    with res q3 show ?thesis
      by simp
  next
    case True
    define q4 where "q4 = q3\<lparr>order := fold (\<lambda>i ord. ord[i := MoveRange_order start end to (ord ! i)])
                              [0..<queue_length q3] (order q3)\<rparr>"
    have a: "queue_alloc q4"
      using q3 by (subst queue_alloc_cong [of q4 q3]) (simp_all add: q4_def)
    from q3 have len: "queue_length q3 \<le> length (order q3)"
      by (simp add: queue_alloc_def)
    have n: "queue_length q3 = queue_length q"
      by (simp add: f1 f2 f3)
    have "order_is_permutation q4"
      using q3 [THEN conjunct1] q3 [THEN conjunct2] a
    proof (rule permutation_revalue)
      show "queue_length q4 = queue_length q3"
        by (simp add: q4_def)
      show "bij_betw (MoveRange_order start end to) {..<queue_length q3} {..<queue_length q3}"
        unfolding n using assms(3-5) queue_length_small [OF assms(1)]
        by (rule bij_MoveRange_order)
      show "order q4 ! k = MoveRange_order start end to (order q3 ! k)" if "k < queue_length q3" for k
        using that len by (simp add: q4_def nth_fold_update)
    qed
    with a True res show ?thesis
      by (simp add: q4_def)
  qed
qed

subsection \<open>Deleting a position\<close>

lemma bij_close_gap:
  assumes "ord < n"
  shows "bij_betw (\<lambda>k. if ord \<le> k then k + 1 else k) {..<n - 1} ({..<n} - {ord :: nat})"
  by (rule bij_betw_byWitness [where f' = "\<lambda>k. if ord < k then k - 1 else k"])
    (use assms in auto)

lemma bij_renumber:
  assumes "position < n"
  shows "bij_betw (\<lambda>x. if position < x then x - 1 else x) ({..<n} - {position :: nat}) {..<n - 1}"
  by (rule bij_betw_byWitness [where f' = "\<lambda>y. if position \<le> y then y + 1 else y"])
    (use assms in auto)

lemma bij_betw_remove:
  assumes "bij_betw g A A" and "a \<in> A"
  shows "bij_betw g (A - {a}) (A - {g a})"
proof -
  from assms(1) have inj: "inj_on g A" and img: "g ` A = A"
    by (simp_all add: bij_betw_def)
  have "g ` (A - {a}) = g ` A - g ` {a}"
    using inj assms(2) by (intro inj_on_image_set_diff [of g A]) auto
  with img have "g ` (A - {a}) = A - {g a}"
    by simp
  moreover have "inj_on g (A - {a})"
    using inj by (rule inj_on_subset) auto
  ultimately show ?thesis
    by (simp add: bij_betw_def)
qed

lemma DeletePosition_permutation:
  assumes "queue_alloc q" and "order_is_permutation q" and "DeletePosition q position = Inr q'"
  shows "queue_alloc q' \<and> order_is_permutation q'"
proof -
  define n where "n = queue_length q"
  from assms(3) have pos: "position < n"
    by (simp add: DeletePosition_def n_def split: if_splits)
  from assms(3) pos obtain ord where ord: "PositionToOrder q position = Inr ord"
    by (auto simp: DeletePosition_def PositionToId_def bind_r_def n_def split: sum.splits)
  from PositionToOrder_Inr [OF ord] have o: "ord < n" "order q ! ord = position"
    by (simp_all add: n_def)
  define q1 where "q1 = q\<lparr>queue_length := n - 1,
      id_to_position := (id_to_position q)[item_id (items q ! position) := - 1]\<rparr>"
  define q2 where "q2 = fold (\<lambda>i q. queue_move_song_to q (i + 1) i) [position..<n - 1] q1"
  define ord1 where "ord1 = fold (\<lambda>i ord. ord[i := ord ! (i + 1)]) [ord..<n - 1] (order q2)"
  define ord2 where "ord2 =
      fold (\<lambda>i ord. if ord ! i > position then ord[i := ord ! i - 1] else ord) [0..<n - 1] ord1"
  from assms(3) pos ord have q': "q' = q2\<lparr>order := ord2\<rparr>"
    by (simp add: DeletePosition_def PositionToId_def bind_r_def Let_def n_def q1_def q2_def
        ord1_def ord2_def)
  have f2: "order q2 = order q1" "queue_length q2 = queue_length q1" "max_length q2 = max_length q1"
    "length (items q2) = length (items q1)"
    "length (id_to_position q2) = length (id_to_position q1)"
    unfolding q2_def by (rule fold_preserves, simp add: queue_move_song_to_frame)+
  have oq2: "order q2 = order q"
    by (simp add: f2 q1_def)
  from assms(1) have len: "n \<le> length (order q)"
    by (simp add: queue_alloc_def n_def)
  have same_update: "(\<lambda>i ord. if ord ! i > position then ord[i := ord ! i - 1] else ord)
      = (\<lambda>i ord. ord[i := (if position < ord ! i then ord ! i - 1 else ord ! i)])"
    by (intro ext) simp
  have l1: "length ord1 = length (order q)"
    by (simp add: ord1_def oq2)
  have l2: "length ord2 = length (order q)"
    unfolding ord2_def same_update by (simp add: l1)
  have nth1: "ord1 ! k = (if ord \<le> k \<and> k < n - 1 then order q ! (k + 1) else order q ! k)" for k
  proof -
    from pos len have "n - 1 < length (order q)"
      by simp
    from shift_left_nth [OF this, of "\<lambda>x. x" ord k] show ?thesis
      by (simp add: ord1_def oq2)
  qed
  have nth2: "ord2 ! k = (if position < ord1 ! k then ord1 ! k - 1 else ord1 ! k)"
    if "k < n - 1" for k
  proof -
    from that len have "k < length ord1"
      by (simp add: l1)
    with that show ?thesis
      unfolding ord2_def same_update
      by (simp add: nth_fold_update [where f = "\<lambda>x. if position < x then x - 1 else x"])
  qed
  have nth: "order q' ! k =
      (\<lambda>x. if position < x then x - 1 else x) (order q ! (if ord \<le> k then k + 1 else k))"
    if "k < n - 1" for k
    using that by (simp add: q' nth2 nth1)
  have a: "queue_alloc q'"
    using assms(1) by (auto simp: queue_alloc_def q' l2 f2 q1_def n_def)
  from assms(1,2) have "bij_betw (\<lambda>k. order q ! k) {..<n} {..<n}"
    by (simp add: order_is_permutation_iff n_def)
  from bij_betw_remove [OF this, of ord] o
  have middle: "bij_betw (\<lambda>k. order q ! k) ({..<n} - {ord}) ({..<n} - {position})"
    by simp
  have "bij_betw (\<lambda>k. order q ! (if ord \<le> k then k + 1 else k)) {..<n - 1} ({..<n} - {position})"
    using middle bij_close_gap [OF o(1)] by (rule bij_betw_reindex) simp
  with bij_renumber [OF pos] have "bij_betw (\<lambda>k. order q' ! k) {..<n - 1} {..<n - 1}"
    by (rule bij_betw_reindex) (simp add: nth)
  moreover have "queue_length q' = n - 1"
    by (simp add: q' f2 q1_def)
  ultimately have "order_is_permutation q'"
    using a by (simp add: order_is_permutation_iff)
  with a show ?thesis
    by simp
qed

subsection \<open>Every operation, and every sequence of operations: claim C1\<close>

lemma apply_operation_permutation:
  assumes "queue_alloc q" and "order_is_permutation q" and "operation_pre q opn"
    and "apply_operation (cur, q) opn = Inr (cur', q')"
  shows "queue_alloc q' \<and> order_is_permutation q'"
proof (cases opn)
  case (OpAppend s prio)
  with assms(4) have "Append q cur s prio = Inr (cur', q')"
    by simp
  with assms(1,2) show ?thesis
    by (rule Append_permutation)
next
  case (OpDeletePosition position)
  with assms(4) have "DeletePosition q position = Inr q'"
    by (auto simp: bind_r_def split: sum.splits)
  with assms(1,2) show ?thesis
    by (rule DeletePosition_permutation)
next
  case OpClear
  with assms show ?thesis
    using Clear_permutation [of q] by auto
next
  case (OpSwapPositions position1 position2)
  with assms show ?thesis
    using SwapPositions_permutation [of q position1 position2] by auto
next
  case (OpMovePostion "from" to)
  with assms show ?thesis
    using MovePostion_permutation [of q "from" to] by auto
next
  case (OpMoveRange start "end" to)
  with assms show ?thesis
    using MoveRange_permutation [of q start "end" to] by auto
next
  case (OpSetPriority position priority after_order)
  with assms(4) obtain m where "SetPriority q position priority after_order = Inr (m, q')"
    by (auto simp: bind_r_def split: sum.splits)
  from SetPriority_permutation [OF assms(1,2) this] show ?thesis
    by simp
next
  case (OpSetPriorityRange start_position end_position priority after_order)
  with assms(4) obtain m
    where "SetPriorityRange q start_position end_position priority after_order = Inr (m, q')"
    by (auto simp: bind_r_def split: sum.splits)
  with assms(1,2) show ?thesis
    by (rule SetPriorityRange_permutation)
next
  case (OpShuffleRange start "end")
  with assms(4) have "ShuffleRange q start end = Inr q'"
    by (auto simp: bind_r_def split: sum.splits)
  with assms(1,2) show ?thesis
    by (rule ShuffleRange_permutation)
next
  case (OpShuffleOrderRangeWithPriority start "end")
  with assms(4) have "ShuffleOrderRangeWithPriority q start end = Inr q'"
    by (auto simp: bind_r_def split: sum.splits)
  from ShuffleOrderRangeWithPriority_permutation [OF assms(1,2) this] show ?thesis
    by simp
next
  case (OpShuffleOrderFirst start "end")
  with assms show ?thesis
    using ShuffleOrderFirst_permutation [of q start "end"] by auto
next
  case (OpShuffleOrderLast start "end")
  with assms show ?thesis
    using ShuffleOrderLast_permutation [of q start "end"] by auto
qed

text \<open>
  Claim C1. Take a queue whose arrays are allocated and whose order array, up to the
  length, is a permutation of the positions, and any sequence of the public mutating
  operations, each invoked with its preconditions satisfied. Whenever the sequence
  returns, the order array of the queue it leaves, restricted to the indices below the
  new length, is again a permutation of the positions below that length. Every prefix of
  a sequence is a sequence, so this holds after each operation of a run.
\<close>

theorem order_stays_permutation:
  assumes "queue_alloc q" and "order_is_permutation q"
    and "run_pre (cur, q) ops" and "run (cur, q) ops = Inr (cur', q')"
  shows "order_is_permutation q'"
proof -
  have "queue_alloc q' \<and> order_is_permutation q'"
    using assms
  proof (induction ops arbitrary: cur q)
    case Nil
    then show ?case
      by simp
  next
    case (Cons opn ops)
    from run_Cons_Inr [OF Cons.prems(4)] obtain cur1 q1
      where step: "apply_operation (cur, q) opn = Inr (cur1, q1)"
        and rest: "run (cur1, q1) ops = Inr (cur', q')"
      by (metis surj_pair)
    from Cons.prems(3) step have pre: "operation_pre q opn" and pre_rest: "run_pre (cur1, q1) ops"
      by simp_all
    from apply_operation_permutation [OF Cons.prems(1,2) pre step]
    have "queue_alloc q1" "order_is_permutation q1"
      by simp_all
    then show ?case
      using pre_rest rest by (rule Cons.IH)
  qed
  then show ?thesis
    by simp
qed

text \<open>
  A run on the queue of A, B and C in random mode: the song at position 2 is moved to
  the front, A (now at position 1) gets priority 7, and the song at position 0 is
  deleted. The queue that is left holds A and B, in this order.
\<close>

lemmas queue_evals =
  bind_r_def Let_def MovePostion_def MovePostion_order_def queue_move_song_to_def
  SetPriority_def PositionToOrder_def PositionToOrder_from.simps OrderToPosition_def
  queue_find_priority_order_def queue_find_priority_order_from.simps
  queue_move_order_def queue_count_same_priority_def queue_count_same_priority_from.simps
  ShuffleOrderFirst_def uniform_int_distribution_def SwapOrders_def
  DeletePosition_def PositionToId_def
  unsigned_to_int_def int_to_unsigned_def usub_def uadd_def
  upt_conv_Cons

lemma run_R:
  "run (2, queue_R) [OpMovePostion 2 0, OpSetPriority 1 7 (- 1), OpDeletePosition 0]
     = Inr (2, queue_AB)"
  by (simp add: queue_R_def queue_ABC_def queue_AB_def song_item_def blank_item_def queue_evals)

lemma queue_R_alloc: "queue_alloc queue_R"
  by (simp add: queue_alloc_def queue_R_def queue_ABC_def QUEUE_HASH_MULT_def)

lemma queue_R_permutation: "order_is_permutation queue_R"
  by (simp add: order_is_permutation_def queue_R_def queue_ABC_def upt_conv_Cons)

lemma run_pre_R:
  "run_pre (2, queue_R) [OpMovePostion 2 0, OpSetPriority 1 7 (- 1), OpDeletePosition 0]"
  by (simp add: queue_R_def queue_ABC_def song_item_def blank_item_def queue_evals)

theorem order_stays_permutation_witness:
  "queue_alloc queue_R \<and> order_is_permutation queue_R \<and>
   run_pre (2, queue_R) [OpMovePostion 2 0, OpSetPriority 1 7 (- 1), OpDeletePosition 0] \<and>
   run (2, queue_R) [OpMovePostion 2 0, OpSetPriority 1 7 (- 1), OpDeletePosition 0]
     = Inr (2, queue_AB) \<and>
   order_is_permutation queue_AB \<and> order queue_AB = [0, 1, 0, 0] \<and> queue_length queue_AB = 2"
  using order_stays_permutation [OF queue_R_alloc queue_R_permutation run_pre_R run_R]
    queue_R_alloc queue_R_permutation run_pre_R run_R
  by (simp add: queue_AB_def)

end
